theory Spec2Isabelle
  imports Complex_Main "HOL-Library.Word" "HOL-Library.Multiset"
begin

section \<open>The grid model (gridmodel.h, gridmodel.cpp)\<close>

text \<open>
  \<open>std::uint8_t\<close> is an 8-bit word. A coordinate is the \<open>std::pair\<close> of a row and a
  column. The signals the class emits (\<open>cellUpdated\<close>, \<open>gridReset\<close>,
  \<open>startPositionChanged\<close>, \<open>goalPositionChanged\<close>) change no field and are left out.
\<close>

type_synonym u8 = "8 word"
type_synonym pos = "u8 \<times> u8"

datatype CellType = Normal | Wall | Rough | Boost | Start | Goal

datatype error = OutOfRange

record GridModel =
  m_rows :: u8
  m_cols :: u8
  m_grid :: "CellType list list"
  m_start :: pos
  m_goal :: pos

text \<open>The constructor: \<open>rows\<close> rows of \<open>cols\<close> cells, all \<open>Normal\<close>; the two special
  positions take their default member initialiser \<open>{101, 101}\<close>.\<close>

definition GridModel_new :: "u8 \<Rightarrow> u8 \<Rightarrow> GridModel" where
  "GridModel_new rows cols =
     \<lparr> m_rows = rows, m_cols = cols,
       m_grid = replicate (unat rows) (replicate (unat cols) Normal),
       m_start = (101, 101), m_goal = (101, 101) \<rparr>"

definition rowCount :: "GridModel \<Rightarrow> u8" where
  "rowCount gm = m_rows gm"

definition colCount :: "GridModel \<Rightarrow> u8" where
  "colCount gm = m_cols gm"

definition startPosition :: "GridModel \<Rightarrow> pos" where
  "startPosition gm = m_start gm"

definition goalPosition :: "GridModel \<Rightarrow> pos" where
  "goalPosition gm = m_goal gm"

text \<open>\<open>validateCoordinates\<close> throws \<open>std::out_of_range\<close>: the error is the left summand.\<close>

definition validateCoordinates :: "GridModel \<Rightarrow> u8 \<Rightarrow> u8 \<Rightarrow> error + unit" where
  "validateCoordinates gm row col =
     (if row \<ge> m_rows gm \<or> col \<ge> m_cols gm then Inl OutOfRange else Inr ())"

text \<open>The read \<open>m_grid[row][col]\<close> and the write \<open>m_grid[row][col] = t\<close> of the nested
  vector. The source indexes without a check; it only does so at coordinates that are
  within the grid (see \<open>wf_grid\<close> below), where list indexing is the vector's.\<close>

definition grid_read :: "CellType list list \<Rightarrow> u8 \<Rightarrow> u8 \<Rightarrow> CellType" where
  "grid_read gr row col = gr ! unat row ! unat col"

definition grid_write :: "CellType list list \<Rightarrow> u8 \<Rightarrow> u8 \<Rightarrow> CellType \<Rightarrow> CellType list list" where
  "grid_write gr row col t = gr[unat row := (gr ! unat row)[unat col := t]]"

definition cellState :: "GridModel \<Rightarrow> u8 \<Rightarrow> u8 \<Rightarrow> error + CellType" where
  "cellState gm row col =
     (case validateCoordinates gm row col of
        Inl e \<Rightarrow> Inl e
      | Inr _ \<Rightarrow> Inr (grid_read (m_grid gm) row col))"

text \<open>\<open>updateSpecialPosition\<close> takes the tracked position by reference: the model takes
  its old value and the grid, and returns the new value and the new grid.\<close>

definition updateSpecialPosition ::
  "CellType list list \<Rightarrow> pos \<Rightarrow> u8 \<Rightarrow> u8 \<Rightarrow> CellType \<Rightarrow> pos \<times> CellType list list" where
  "updateSpecialPosition gr position newRow newCol positionType =
     (let oldRow = fst position; oldCol = snd position;
          gr1 = (if oldRow \<noteq> 101 \<or> oldCol \<noteq> 101
                 then grid_write gr oldRow oldCol Normal else gr)
      in ((newRow, newCol), grid_write gr1 newRow newCol positionType))"

definition setCellState :: "GridModel \<Rightarrow> u8 \<Rightarrow> u8 \<Rightarrow> CellType \<Rightarrow> error + GridModel" where
  "setCellState gm row col t =
     (case validateCoordinates gm row col of
        Inl e \<Rightarrow> Inl e
      | Inr _ \<Rightarrow>
          if t = Start \<or> t = Goal then
            (if t = Start then
               (let (p, gr) = updateSpecialPosition (m_grid gm) (m_start gm) row col t
                in Inr (gm\<lparr>m_grid := gr, m_start := p\<rparr>))
             else
               (let (p, gr) = updateSpecialPosition (m_grid gm) (m_goal gm) row col t
                in Inr (gm\<lparr>m_grid := gr, m_goal := p\<rparr>)))
          else Inr (gm\<lparr>m_grid := grid_write (m_grid gm) row col t\<rparr>))"

definition clearGrid :: "GridModel \<Rightarrow> GridModel" where
  "clearGrid gm =
     gm\<lparr>m_grid := map (map (\<lambda>_. Normal)) (m_grid gm),
        m_start := (101, 101), m_goal := (101, 101)\<rparr>"

text \<open>A sequence of \<open>setCellState\<close> calls; a call that throws leaves the model as it was
  (the exception is raised before any field is written) and the sequence goes on.\<close>

fun setCells :: "GridModel \<Rightarrow> (u8 \<times> u8 \<times> CellType) list \<Rightarrow> GridModel" where
  "setCells gm [] = gm"
| "setCells gm ((row, col, t) # cs) =
     (case setCellState gm row col t of
        Inl _ \<Rightarrow> setCells gm cs
      | Inr gm' \<Rightarrow> setCells gm' cs)"

subsection \<open>Cells, bounds and the shape of a model\<close>

definition in_bounds :: "GridModel \<Rightarrow> pos \<Rightarrow> bool" where
  "in_bounds gm p \<longleftrightarrow> fst p < m_rows gm \<and> snd p < m_cols gm"

definition cell :: "GridModel \<Rightarrow> pos \<Rightarrow> CellType" where
  "cell gm p = grid_read (m_grid gm) (fst p) (snd p)"

definition unset :: pos where
  "unset = (101, 101)"

text \<open>The shape every model built by the constructor and changed by \<open>setCellState\<close> and
  \<open>clearGrid\<close> has: the vectors have the declared sizes, and a tracked position is the
  default \<open>{101, 101}\<close> or a coordinate of the grid.\<close>

definition wf_grid :: "GridModel \<Rightarrow> bool" where
  "wf_grid gm \<longleftrightarrow>
     length (m_grid gm) = unat (m_rows gm) \<and>
     (\<forall>r \<in> set (m_grid gm). length r = unat (m_cols gm)) \<and>
     (m_start gm = unset \<or> in_bounds gm (m_start gm)) \<and>
     (m_goal gm = unset \<or> in_bounds gm (m_goal gm))"


section \<open>The pathfinder (pathfinder.h, pathfinder.cpp)\<close>

text \<open>
  A \<open>double\<close> is a finite value or \<open>+infinity\<close>. Every finite value the search
  computes is a sum of at most \<open>255 * 255\<close> step costs out of \<open>0.5\<close>, \<open>1.0\<close> and
  \<open>2.0\<close>, or such a sum plus a multiple of \<open>0.5\<close> below \<open>256\<close>: a multiple of
  \<open>0.5\<close> far below \<open>2^53\<close>, which binary floating point adds and compares exactly, so
  finite values are real numbers. Only \<open>initialize\<close> writes an infinity, and only into the
  cost grid, so \<open>Node::g\<close> and \<open>Node::f\<close> are finite.
\<close>

datatype dbl = Fin real | PosInf

definition dbl_less :: "real \<Rightarrow> dbl \<Rightarrow> bool" where
  "dbl_less x d = (case d of Fin y \<Rightarrow> x < y | PosInf \<Rightarrow> True)"

record PathResult =
  path :: "pos list"
  totalCost :: dbl

record Node =
  node_row :: u8
  node_col :: u8
  node_g :: real
  node_f :: real

definition node_pos :: "Node \<Rightarrow> pos" where
  "node_pos n = (node_row n, node_col n)"

text \<open>
  \<open>std::priority_queue<Node, std::vector<Node>, std::greater<Node>>\<close> is library code:
  the search is written over its five operations, on any representation \<open>'q\<close> of the
  underlying vector. \<open>pq_contract\<close> is what the standard promises of them, for the
  comparison \<open>Node::operator>\<close> (which compares \<open>f\<close> only): the queue holds the multiset of
  the nodes pushed and not yet popped, and \<open>top\<close> is one of them that no other is
  smaller than. Which of several nodes of equal \<open>f\<close> is on top is left open, and may
  depend on the whole history of the queue.
\<close>

record 'q pq_ops =
  pq_new :: 'q
  pq_empty :: "'q \<Rightarrow> bool"
  pq_push :: "Node \<Rightarrow> 'q \<Rightarrow> 'q"
  pq_top :: "'q \<Rightarrow> Node"
  pq_pop :: "'q \<Rightarrow> 'q"

definition pq_contract :: "'q pq_ops \<Rightarrow> ('q \<Rightarrow> bool) \<Rightarrow> ('q \<Rightarrow> Node multiset) \<Rightarrow> bool" where
  "pq_contract P heap items \<longleftrightarrow>
     heap (pq_new P) \<and> items (pq_new P) = {#} \<and>
     (\<forall>q. heap q \<longrightarrow>
        (pq_empty P q \<longleftrightarrow> items q = {#}) \<and>
        (\<forall>n. heap (pq_push P n q) \<and> items (pq_push P n q) = add_mset n (items q)) \<and>
        (items q \<noteq> {#} \<longrightarrow>
           pq_top P q \<in># items q \<and>
           (\<forall>m \<in># items q. \<not> node_f (pq_top P q) > node_f m) \<and>
           heap (pq_pop P q) \<and> items (pq_pop P q) = items q - {#pq_top P q#}))"

definition pq_ok :: "'q pq_ops \<Rightarrow> bool" where
  "pq_ok P \<longleftrightarrow> (\<exists>heap items. pq_contract P heap items)"

text \<open>One queue that meets the contract, for running the search: the vector in insertion
  order, the top being its first node of least \<open>f\<close>.\<close>

fun least_node :: "Node \<Rightarrow> Node list \<Rightarrow> Node" where
  "least_node b [] = b"
| "least_node b (n # ns) = least_node (if node_f b > node_f n then n else b) ns"

definition list_pq :: "Node list pq_ops" where
  "list_pq =
     \<lparr> pq_new = [],
       pq_empty = (\<lambda>q. q = []),
       pq_push = (\<lambda>n q. q @ [n]),
       pq_top = (\<lambda>q. least_node (hd q) (tl q)),
       pq_pop = (\<lambda>q. remove1 (least_node (hd q) (tl q)) q) \<rparr>"

text \<open>
  The search tables \<open>m_costGrid\<close>, \<open>m_visited\<close> and \<open>m_previous\<close> are nested vectors
  that \<open>initialize\<close> sizes to the grid; the search indexes them only at coordinates that
  passed the bounds check of the neighbour loop, or at the start and the goal. They are
  total functions on coordinates here. The constructor leaves the vectors empty and
  the queue empty; \<open>initialize\<close> assigns the three tables and does not touch the queue.
\<close>

record 'q Pathfinder =
  m_costGrid :: "pos \<Rightarrow> dbl"
  m_visited :: "pos \<Rightarrow> bool"
  m_previous :: "pos \<Rightarrow> pos"
  m_queue :: 'q

definition Pathfinder_new :: "'q pq_ops \<Rightarrow> 'q Pathfinder" where
  "Pathfinder_new P =
     \<lparr> m_costGrid = (\<lambda>_. PosInf), m_visited = (\<lambda>_. False),
       m_previous = (\<lambda>_. (101, 101)), m_queue = pq_new P \<rparr>"

definition initialize :: "GridModel \<Rightarrow> 'q Pathfinder \<Rightarrow> 'q Pathfinder" where
  "initialize gm pf =
     pf\<lparr> m_costGrid := (\<lambda>_. PosInf), m_visited := (\<lambda>_. False),
         m_previous := (\<lambda>_. (101, 101)) \<rparr>"

definition getCost :: "CellType \<Rightarrow> real" where
  "getCost t = (case t of Wall \<Rightarrow> - 1 | Rough \<Rightarrow> 2 | Boost \<Rightarrow> 0.5 | _ \<Rightarrow> 1)"

text \<open>The operands of \<open>row - goal.first\<close> are promoted to \<open>int\<close> before the subtraction.\<close>

definition heuristic :: "GridModel \<Rightarrow> u8 \<Rightarrow> u8 \<Rightarrow> real" where
  "heuristic gm row col =
     (let goal = goalPosition gm
      in real_of_int (\<bar>uint row - uint (fst goal)\<bar> + \<bar>uint col - uint (snd goal)\<bar>) * 0.5)"

text \<open>\<open>reconstructPath\<close>: the loop follows \<open>m_previous\<close> until a row is \<open>101\<close>. Nothing in
  the loop itself bounds it, so not returning is the value \<open>None\<close>.\<close>

partial_function (option) reconstruct_loop :: "(pos \<Rightarrow> pos) \<Rightarrow> pos \<Rightarrow> pos list \<Rightarrow> pos list option" where
  "reconstruct_loop prev current acc =
     (if fst current \<noteq> 101 then reconstruct_loop prev (prev current) (acc @ [current])
      else Some acc)"

declare reconstruct_loop.simps [code]

definition reconstructPath :: "'q Pathfinder \<Rightarrow> pos \<Rightarrow> pos list option" where
  "reconstructPath pf goal = map_option rev (reconstruct_loop (m_previous pf) goal [])"

text \<open>The movement directions \<open>dr\<close> and \<open>dc\<close>, and the body of the neighbour loop for one
  direction. \<open>nr\<close> and \<open>nc\<close> are \<open>int\<close>; they are converted to \<open>uint8_t\<close> where the source
  passes them to \<open>cellState\<close> and \<open>heuristic\<close> and stores them in a node, and the
  exception of \<open>cellState\<close> would leave \<open>findPath\<close>.\<close>

definition dr :: "int list" where
  "dr = [- 1, 1, 0, 0]"

definition dc :: "int list" where
  "dc = [0, 0, - 1, 1]"

definition relax :: "'q pq_ops \<Rightarrow> GridModel \<Rightarrow> Node \<Rightarrow> nat \<Rightarrow> 'q Pathfinder \<Rightarrow> error + 'q Pathfinder" where
  "relax P gm current i pf =
     (let nr = uint (node_row current) + dr ! i;
          nc = uint (node_col current) + dc ! i
      in if nr < 0 \<or> nr \<ge> uint (rowCount gm) \<or> nc < 0 \<or> nc \<ge> uint (colCount gm) then Inr pf
         else
           (case cellState gm (word_of_int nr) (word_of_int nc) of
              Inl e \<Rightarrow> Inl e
            | Inr cellType \<Rightarrow>
                (let stepCost = getCost cellType
                 in if stepCost < 0 then Inr pf
                    else
                      (let newCost = node_g current + stepCost
                       in if dbl_less newCost (m_costGrid pf (word_of_int nr, word_of_int nc)) then
                            (let h = heuristic gm (word_of_int nr) (word_of_int nc)
                             in Inr (pf\<lparr>
                                  m_previous := (m_previous pf)
                                    ((word_of_int nr, word_of_int nc) := (node_row current, node_col current)),
                                  m_costGrid := (m_costGrid pf)
                                    ((word_of_int nr, word_of_int nc) := Fin newCost),
                                  m_queue := pq_push P
                                    \<lparr> node_row = word_of_int nr, node_col = word_of_int nc,
                                      node_g = newCost, node_f = newCost + h \<rparr>
                                    (m_queue pf) \<rparr>))
                          else Inr pf))))"

text \<open>The neighbour loop \<open>for (size_t i = 0; i < dr.size(); ++i)\<close>, from index \<open>i\<close> on.\<close>

function explore :: "'q pq_ops \<Rightarrow> GridModel \<Rightarrow> Node \<Rightarrow> nat \<Rightarrow> 'q Pathfinder \<Rightarrow> error + 'q Pathfinder" where
  "explore P gm current i pf =
     (if i < length dr then
        (case relax P gm current i pf of
           Inl e \<Rightarrow> Inl e
         | Inr pf' \<Rightarrow> explore P gm current (i + 1) pf')
      else Inr pf)"
  by pat_completeness auto
termination
  by (relation "measure (\<lambda>(P, gm, current, i, pf). length dr - i)") auto

text \<open>The main loop \<open>while (!m_queue.empty())\<close> with the two returns of \<open>findPath\<close> that
  follow the search: the goal popped, and the queue exhausted. The loop is not bounded
  by its own text, so not returning is the value \<open>None\<close>.\<close>

partial_function (option) search_loop ::
  "'q pq_ops \<Rightarrow> GridModel \<Rightarrow> pos \<Rightarrow> 'q Pathfinder \<Rightarrow> (error + PathResult \<times> 'q Pathfinder) option" where
  "search_loop P gm goal pf =
     (if pq_empty P (m_queue pf) then Some (Inr (\<lparr>path = [], totalCost = Fin (- 1)\<rparr>, pf))
      else
        (let current = pq_top P (m_queue pf);
             pf1 = pf\<lparr>m_queue := pq_pop P (m_queue pf)\<rparr>
         in if m_visited pf1 (node_row current, node_col current) then search_loop P gm goal pf1
            else
              (let pf2 = pf1\<lparr>m_visited := (m_visited pf1)((node_row current, node_col current) := True)\<rparr>
               in if node_row current = fst goal \<and> node_col current = snd goal then
                    (case reconstructPath pf2 goal of
                       None \<Rightarrow> None
                     | Some p \<Rightarrow> Some (Inr (\<lparr>path = p, totalCost = m_costGrid pf2 goal\<rparr>, pf2)))
                  else
                    (case explore P gm current 0 pf2 of
                       Inl e \<Rightarrow> Some (Inl e)
                     | Inr pf3 \<Rightarrow> search_loop P gm goal pf3))))"

declare search_loop.simps [code]

text \<open>\<open>findPath\<close>. The early \<open>return {}\<close> value-initialises the result: an empty path and
  a \<open>totalCost\<close> of \<open>0.0\<close>.\<close>

definition findPath :: "'q pq_ops \<Rightarrow> GridModel \<Rightarrow> 'q Pathfinder \<Rightarrow> (error + PathResult \<times> 'q Pathfinder) option" where
  "findPath P gm pf =
     (let start = startPosition gm; goal = goalPosition gm
      in if fst start = 101 \<or> fst goal = 101 then Some (Inr (\<lparr>path = [], totalCost = Fin 0\<rparr>, pf))
         else
           (let pf1 = initialize gm pf;
                start_row = fst start; start_col = snd start;
                pf2 = pf1\<lparr>m_costGrid := (m_costGrid pf1)((start_row, start_col) := Fin 0)\<rparr>;
                pf3 = pf2\<lparr>m_queue := pq_push P
                        \<lparr> node_row = start_row, node_col = start_col, node_g = 0,
                          node_f = heuristic gm start_row start_col \<rparr> (m_queue pf2)\<rparr>
            in search_loop P gm goal pf3))"

text \<open>What a caller sees of a call on a pathfinder just constructed over the model, as
  \<open>MainWindow\<close> makes it.\<close>

definition findPath_fresh :: "'q pq_ops \<Rightarrow> GridModel \<Rightarrow> (error + PathResult) option" where
  "findPath_fresh P gm = map_option (map_sum id fst) (findPath P gm (Pathfinder_new P))"

text \<open>What a caller sees of the second of two calls on one pathfinder: the first when the
  model is \<open>gm\<close>, the second after the model was changed to \<open>gm'\<close>. The pathfinder holds a
  reference to the model, and the second call starts from the fields the first left.\<close>

definition findPath_twice :: "'q pq_ops \<Rightarrow> GridModel \<Rightarrow> GridModel \<Rightarrow> (error + PathResult) option" where
  "findPath_twice P gm gm' =
     (case findPath P gm (Pathfinder_new P) of
        None \<Rightarrow> None
      | Some (Inl e) \<Rightarrow> Some (Inl e)
      | Some (Inr (r, pf)) \<Rightarrow> map_option (map_sum id fst) (findPath P gm' pf))"

section \<open>Notions the properties are stated with\<close>

subsection \<open>Special cells\<close>

text \<open>\<open>updateSpecialPosition\<close> first resets the cell at the old tracked position, unless
  that position is \<open>{101, 101}\<close>.\<close>

definition clear_old :: "CellType list list \<Rightarrow> pos \<Rightarrow> CellType list list" where
  "clear_old gr p = (if p = unset then gr else grid_write gr (fst p) (snd p) Normal)"

text \<open>The coordinate is a cell of the grid and holds the type.\<close>

definition is_type :: "GridModel \<Rightarrow> CellType \<Rightarrow> pos \<Rightarrow> bool" where
  "is_type gm t p \<longleftrightarrow> in_bounds gm p \<and> cell gm p = t"

text \<open>Every \<open>Start\<close> cell is at the tracked start position or at the coordinate
  \<open>(101, 101)\<close>, and likewise for \<open>Goal\<close>.\<close>

definition tracked :: "GridModel \<Rightarrow> bool" where
  "tracked gm \<longleftrightarrow>
     (\<forall>p. is_type gm Start p \<longrightarrow> p = m_start gm \<or> p = unset) \<and>
     (\<forall>p. is_type gm Goal p \<longrightarrow> p = m_goal gm \<or> p = unset)"


subsection \<open>Neighbours, walks and their cost\<close>

text \<open>The coordinate the neighbour loop computes in direction \<open>i\<close>, as the pair of
  \<open>int\<close>s \<open>nr\<close> and \<open>nc\<close>; whether it passes the bounds check; and the coordinate as
  converted to \<open>uint8_t\<close>.\<close>

definition nbr :: "pos \<Rightarrow> nat \<Rightarrow> int \<times> int" where
  "nbr u i = (uint (fst u) + dr ! i, uint (snd u) + dc ! i)"

definition nbr_ok :: "GridModel \<Rightarrow> pos \<Rightarrow> nat \<Rightarrow> bool" where
  "nbr_ok gm u i \<longleftrightarrow>
     0 \<le> fst (nbr u i) \<and> fst (nbr u i) < uint (m_rows gm) \<and>
     0 \<le> snd (nbr u i) \<and> snd (nbr u i) < uint (m_cols gm)"

definition nbr_pos :: "pos \<Rightarrow> nat \<Rightarrow> pos" where
  "nbr_pos u i = (word_of_int (fst (nbr u i)), word_of_int (snd (nbr u i)))"

text \<open>Two coordinates are adjacent when they are one step apart in one of the four
  directions. A walk is a non-empty sequence of cells of the grid, each adjacent to the
  next; it is wall-free when no cell after the first is a \<open>Wall\<close>. Its cost is the sum of
  the step costs of the cells it enters.\<close>

definition adjacent :: "pos \<Rightarrow> pos \<Rightarrow> bool" where
  "adjacent p q \<longleftrightarrow> \<bar>uint (fst p) - uint (fst q)\<bar> + \<bar>uint (snd p) - uint (snd q)\<bar> = 1"

fun walk :: "GridModel \<Rightarrow> pos list \<Rightarrow> bool" where
  "walk gm [] = False"
| "walk gm [p] = in_bounds gm p"
| "walk gm (p # q # ps) = (in_bounds gm p \<and> adjacent p q \<and> walk gm (q # ps))"

definition wall_free :: "GridModel \<Rightarrow> pos list \<Rightarrow> bool" where
  "wall_free gm ps \<longleftrightarrow> (\<forall>p \<in> set (tl ps). cell gm p \<noteq> Wall)"

definition step_cost :: "GridModel \<Rightarrow> pos \<Rightarrow> real" where
  "step_cost gm p = getCost (cell gm p)"

definition path_cost :: "GridModel \<Rightarrow> pos list \<Rightarrow> real" where
  "path_cost gm ps = sum_list (map (step_cost gm) (tl ps))"

definition h_of :: "GridModel \<Rightarrow> pos \<Rightarrow> real" where
  "h_of gm p = heuristic gm (fst p) (snd p)"

text \<open>A walk from the tracked start to the tracked goal.\<close>

definition route :: "GridModel \<Rightarrow> pos list \<Rightarrow> bool" where
  "route gm ps \<longleftrightarrow> walk gm ps \<and> hd ps = m_start gm \<and> last ps = m_goal gm"

subsection \<open>The loops, turn by turn\<close>

text \<open>The update of the neighbour loop when the neighbour \<open>x\<close> of the node \<open>e\<close> is reached
  at a lower cost: the parent, the cost and the queue change. It is made in direction
  \<open>i\<close> when the neighbour passes the bounds check, is not a wall and the new cost is
  lower; \<open>relaxed\<close> is the state after the turn for direction \<open>i\<close>, \<open>explored\<close> the state
  after all four.\<close>

definition improve :: "'q pq_ops \<Rightarrow> GridModel \<Rightarrow> Node \<Rightarrow> pos \<Rightarrow> 'q Pathfinder \<Rightarrow> 'q Pathfinder" where
  "improve P gm e x pf =
     pf\<lparr> m_previous := (m_previous pf)(x := node_pos e),
         m_costGrid := (m_costGrid pf)(x := Fin (node_g e + step_cost gm x)),
         m_queue := pq_push P
           \<lparr> node_row = fst x, node_col = snd x, node_g = node_g e + step_cost gm x,
             node_f = node_g e + step_cost gm x + h_of gm x \<rparr>
           (m_queue pf) \<rparr>"

definition improves :: "GridModel \<Rightarrow> Node \<Rightarrow> nat \<Rightarrow> 'q Pathfinder \<Rightarrow> bool" where
  "improves gm e i pf \<longleftrightarrow>
     nbr_ok gm (node_pos e) i \<and> cell gm (nbr_pos (node_pos e) i) \<noteq> Wall \<and>
     dbl_less (node_g e + step_cost gm (nbr_pos (node_pos e) i))
       (m_costGrid pf (nbr_pos (node_pos e) i))"

definition relaxed :: "'q pq_ops \<Rightarrow> GridModel \<Rightarrow> Node \<Rightarrow> nat \<Rightarrow> 'q Pathfinder \<Rightarrow> 'q Pathfinder" where
  "relaxed P gm e i pf =
     (if improves gm e i pf then improve P gm e (nbr_pos (node_pos e) i) pf else pf)"

text \<open>The state of the main loop after a node is popped and discarded, and after a node
  is popped and its coordinate marked visited; and the measure that bounds the loop.\<close>

definition popped :: "'q pq_ops \<Rightarrow> 'q Pathfinder \<Rightarrow> 'q Pathfinder" where
  "popped P pf = pf\<lparr>m_queue := pq_pop P (m_queue pf)\<rparr>"

definition visit :: "'q pq_ops \<Rightarrow> 'q Pathfinder \<Rightarrow> 'q Pathfinder" where
  "visit P pf =
     pf\<lparr>m_queue := pq_pop P (m_queue pf),
        m_visited := (m_visited pf)(node_pos (pq_top P (m_queue pf)) := True)\<rparr>"

definition explored :: "'q pq_ops \<Rightarrow> GridModel \<Rightarrow> Node \<Rightarrow> 'q Pathfinder \<Rightarrow> 'q Pathfinder" where
  "explored P gm e pf =
     relaxed P gm e 3 (relaxed P gm e 2 (relaxed P gm e 1 (relaxed P gm e 0 pf)))"

definition remaining :: "('q \<Rightarrow> Node multiset) \<Rightarrow> 'q Pathfinder \<Rightarrow> nat" where
  "remaining items pf = 5 * card {p. \<not> m_visited pf p} + size (items (m_queue pf))"

subsection \<open>Invariants of the search\<close>

text \<open>Every parent recorded has a lower cost than its child.\<close>

definition descending :: "(pos \<Rightarrow> dbl) \<Rightarrow> (pos \<Rightarrow> pos) \<Rightarrow> bool" where
  "descending cost prev \<longleftrightarrow>
     (\<forall>n. fst (prev n) \<noteq> 101 \<longrightarrow>
        (\<exists>cp cn. cost (prev n) = Fin cp \<and> cost n = Fin cn \<and> cp < cn))"

text \<open>The recorded cost of a node's coordinate is finite and at most the node's \<open>g\<close>.\<close>

definition settled :: "'q Pathfinder \<Rightarrow> Node \<Rightarrow> bool" where
  "settled pf e \<longleftrightarrow> (\<exists>c. m_costGrid pf (node_pos e) = Fin c \<and> c \<le> node_g e)"

text \<open>The invariant that makes both loops end, for a queue with the representation
  invariant \<open>heap\<close> and the contents \<open>items\<close>.\<close>

definition inv_A :: "('q \<Rightarrow> bool) \<Rightarrow> ('q \<Rightarrow> Node multiset) \<Rightarrow> 'q Pathfinder \<Rightarrow> bool" where
  "inv_A heap items pf \<longleftrightarrow>
     heap (m_queue pf) \<and>
     (\<forall>e \<in># items (m_queue pf). settled pf e) \<and>
     descending (m_costGrid pf) (m_previous pf)"

text \<open>A coordinate is reached at a cost when a wall-free walk from the tracked start ends
  there and has that cost.\<close>

definition reached :: "GridModel \<Rightarrow> pos \<Rightarrow> real \<Rightarrow> bool" where
  "reached gm p c \<longleftrightarrow>
     (\<exists>ps. walk gm ps \<and> wall_free gm ps \<and> hd ps = m_start gm \<and> last ps = p \<and>
           path_cost gm ps = c)"

text \<open>The invariant of the search, in parts. Every queue entry lies in the grid, has
  \<open>f = g + h\<close> and a \<open>g\<close> no lower than the recorded cost.\<close>

definition K_entries :: "GridModel \<Rightarrow> ('q \<Rightarrow> Node multiset) \<Rightarrow> 'q Pathfinder \<Rightarrow> bool" where
  "K_entries gm items pf \<longleftrightarrow>
     (\<forall>e \<in># items (m_queue pf).
        in_bounds gm (node_pos e) \<and> node_f e = node_g e + h_of gm (node_pos e) \<and> settled pf e)"

text \<open>Every unvisited coordinate with a finite cost has the queue entry of that cost.\<close>

definition K_frontier :: "GridModel \<Rightarrow> ('q \<Rightarrow> Node multiset) \<Rightarrow> 'q Pathfinder \<Rightarrow> bool" where
  "K_frontier gm items pf \<longleftrightarrow>
     (\<forall>p c. \<not> m_visited pf p \<and> m_costGrid pf p = Fin c \<longrightarrow>
        \<lparr>node_row = fst p, node_col = snd p, node_g = c, node_f = c + h_of gm p\<rparr>
          \<in># items (m_queue pf))"

text \<open>No queue entry has a lower \<open>f\<close> than a visited coordinate.\<close>

definition K_mono :: "GridModel \<Rightarrow> ('q \<Rightarrow> Node multiset) \<Rightarrow> 'q Pathfinder \<Rightarrow> bool" where
  "K_mono gm items pf \<longleftrightarrow>
     (\<forall>v c e. m_visited pf v \<and> m_costGrid pf v = Fin c \<and> e \<in># items (m_queue pf) \<longrightarrow>
        c + h_of gm v \<le> node_f e)"

text \<open>Visited coordinates have a finite cost; a finite cost is the cost of a wall-free walk
  from the start.\<close>

definition K_visited :: "'q Pathfinder \<Rightarrow> bool" where
  "K_visited pf \<longleftrightarrow> (\<forall>v. m_visited pf v \<longrightarrow> (\<exists>c. m_costGrid pf v = Fin c))"

definition K_real :: "GridModel \<Rightarrow> 'q Pathfinder \<Rightarrow> bool" where
  "K_real gm pf \<longleftrightarrow> (\<forall>p c. m_costGrid pf p = Fin c \<longrightarrow> reached gm p c)"

text \<open>Every step out of a visited coordinate (other than the one being expanded, \<open>u\<close>)
  into a cell that is not a wall has been relaxed.\<close>

definition K_edges :: "GridModel \<Rightarrow> 'q Pathfinder \<Rightarrow> pos option \<Rightarrow> bool" where
  "K_edges gm pf u \<longleftrightarrow>
     (\<forall>v w cv. m_visited pf v \<and> Some v \<noteq> u \<and> m_costGrid pf v = Fin cv \<and>
        in_bounds gm w \<and> adjacent v w \<and> cell gm w \<noteq> Wall \<longrightarrow>
        (\<exists>cw. m_costGrid pf w = Fin cw \<and> cw \<le> cv + step_cost gm w))"

text \<open>The start has no parent; the parent of any other coordinate of finite cost is
  visited and adjacent, and the cost is the parent's plus the step cost.\<close>

definition K_parents :: "GridModel \<Rightarrow> 'q Pathfinder \<Rightarrow> bool" where
  "K_parents gm pf \<longleftrightarrow>
     m_previous pf (m_start gm) = (101, 101) \<and>
     (\<forall>n c. m_costGrid pf n = Fin c \<and> n \<noteq> m_start gm \<longrightarrow>
        m_visited pf (m_previous pf n) \<and> adjacent (m_previous pf n) n \<and> cell gm n \<noteq> Wall \<and>
        (\<exists>cp. m_costGrid pf (m_previous pf n) = Fin cp \<and> c = cp + step_cost gm n))"

text \<open>The invariant at the head of the main loop (\<open>u = None\<close>) and inside the neighbour
  loop of the coordinate \<open>u\<close>: the parts above, the start at cost \<open>0\<close>, and the goal not
  visited.\<close>

definition inv_C ::
  "GridModel \<Rightarrow> ('q \<Rightarrow> bool) \<Rightarrow> ('q \<Rightarrow> Node multiset) \<Rightarrow> 'q Pathfinder \<Rightarrow> pos option \<Rightarrow> bool" where
  "inv_C gm heap items pf u \<longleftrightarrow>
     heap (m_queue pf) \<and> K_entries gm items pf \<and> K_frontier gm items pf \<and>
     K_mono gm items pf \<and> K_visited pf \<and> K_real gm pf \<and>
     m_costGrid pf (m_start gm) = Fin 0 \<and> \<not> m_visited pf (m_goal gm) \<and>
     K_edges gm pf u \<and> K_parents gm pf"

text \<open>While node \<open>e\<close> is expanded: its coordinate is visited at cost \<open>g\<close>, and no visited
  coordinate has a higher \<open>f\<close>.\<close>

definition K_current :: "GridModel \<Rightarrow> 'q Pathfinder \<Rightarrow> Node \<Rightarrow> bool" where
  "K_current gm pf e \<longleftrightarrow>
     m_visited pf (node_pos e) \<and> m_costGrid pf (node_pos e) = Fin (node_g e) \<and>
     (\<forall>v cv. m_visited pf v \<and> m_costGrid pf v = Fin cv \<longrightarrow>
        cv + h_of gm v \<le> node_g e + h_of gm (node_pos e))"

text \<open>The step from the expanded node in direction \<open>i\<close> has been relaxed.\<close>

definition edge_done :: "GridModel \<Rightarrow> 'q Pathfinder \<Rightarrow> Node \<Rightarrow> nat \<Rightarrow> bool" where
  "edge_done gm pf e i \<longleftrightarrow>
     (nbr_ok gm (node_pos e) i \<and> cell gm (nbr_pos (node_pos e) i) \<noteq> Wall \<longrightarrow>
        (\<exists>cw. m_costGrid pf (nbr_pos (node_pos e) i) = Fin cw \<and>
              cw \<le> node_g e + step_cost gm (nbr_pos (node_pos e) i)))"

text \<open>What the search returns. Either the empty path with the cost \<open>-1\<close>, and then no
  wall-free walk leads from the start to the goal; or a path that ends at the goal, with
  the least cost of a wall-free walk from the start to the goal, and then, on a grid
  without a row \<open>101\<close>, the path is such a walk and has that cost.\<close>

definition search_post :: "GridModel \<Rightarrow> PathResult \<Rightarrow> bool" where
  "search_post gm r \<longleftrightarrow>
     (path r = [] \<and> totalCost r = Fin (- 1) \<and> \<not> (\<exists>ps. route gm ps \<and> wall_free gm ps)) \<or>
     (path r \<noteq> [] \<and> last (path r) = m_goal gm \<and>
      (\<exists>k. totalCost r = Fin k \<and> reached gm (m_goal gm) k \<and>
           (\<forall>ps. route gm ps \<and> wall_free gm ps \<longrightarrow> k \<le> path_cost gm ps) \<and>
           ((\<forall>p. in_bounds gm p \<longrightarrow> fst p \<noteq> 101) \<longrightarrow>
              route gm (path r) \<and> wall_free gm (path r) \<and> path_cost gm (path r) = k)))"

text \<open>No cell of the grid is a \<open>Wall\<close>.\<close>

definition no_walls :: "GridModel \<Rightarrow> bool" where
  "no_walls gm \<longleftrightarrow> Wall \<notin> set (concat (m_grid gm))"

section \<open>The grid model: proofs\<close>

subsection \<open>Reading and writing the nested vector\<close>

lemma grid_write_length [simp]: "length (grid_write gr r c t) = length gr"
  by (simp add: grid_write_def)

lemma grid_write_oob: "\<not> unat r < length gr \<Longrightarrow> grid_write gr r c t = gr"
  by (simp add: grid_write_def list_update_beyond)

lemma grid_write_row_lengths:
  assumes "\<forall>x \<in> set gr. length x = n"
  shows "\<forall>x \<in> set (grid_write gr r c t). length x = n"
proof (cases "unat r < length gr")
  case True
  then have "length (gr ! unat r) = n" using assms by simp
  then show ?thesis using assms
    by (auto simp: grid_write_def dest!: set_update_subset_insert [THEN subsetD])
next
  case False
  then show ?thesis using assms by (simp add: grid_write_oob)
qed

lemma grid_read_write:
  assumes "unat r < length gr" and "unat c < length (gr ! unat r)"
  shows "grid_read (grid_write gr r c t) r' c' =
         (if r' = r \<and> c' = c then t else grid_read gr r' c')"
proof -
  have r: "unat r = unat r' \<longleftrightarrow> r' = r" and c: "unat c = unat c' \<longleftrightarrow> c' = c"
    by (auto simp: word_unat_eq_iff)
  show ?thesis using assms
    by (auto simp: grid_read_def grid_write_def nth_list_update r c)
qed

text \<open>On a grid of the declared shape, a write within the bounds changes that cell only.\<close>

lemma grid_read_write_shape:
  assumes "length gr = unat R" and "\<forall>x \<in> set gr. length x = unat C"
    and "r < R" and "c < C"
  shows "grid_read (grid_write gr r c t) r' c' =
         (if (r', c') = (r, c) then t else grid_read gr r' c')"
proof -
  have 1: "unat r < length gr" using assms(1,3) by (simp add: word_less_nat_alt)
  then have "length (gr ! unat r) = unat C" using assms(2) by simp
  then have 2: "unat c < length (gr ! unat r)" using assms(4) by (simp add: word_less_nat_alt)
  show ?thesis using grid_read_write [OF 1 2] by simp
qed

lemma clear_old_length [simp]: "length (clear_old gr p) = length gr"
  by (simp add: clear_old_def)

lemma clear_old_row_lengths:
  assumes "\<forall>x \<in> set gr. length x = n"
  shows "\<forall>x \<in> set (clear_old gr p). length x = n"
proof (cases "p = unset")
  case True
  then show ?thesis using assms by (simp add: clear_old_def)
next
  case False
  then show ?thesis using grid_write_row_lengths [OF assms] by (simp add: clear_old_def)
qed

lemma grid_read_clear_old:
  assumes "length gr = unat R" and "\<forall>x \<in> set gr. length x = unat C"
    and "p = unset \<or> (fst p < R \<and> snd p < C)"
  shows "grid_read (clear_old gr p) r' c' =
         (if p \<noteq> unset \<and> (r', c') = p then Normal else grid_read gr r' c')"
proof (cases "p = unset")
  case True
  then show ?thesis by (simp add: clear_old_def)
next
  case False
  then have "fst p < R" "snd p < C" using assms(3) by auto
  from grid_read_write_shape [OF assms(1,2) this] False
  show ?thesis by (cases p) (simp add: clear_old_def)
qed

subsection \<open>The three cases of \<open>setCellState\<close>\<close>

lemma validate_ok:
  "row < m_rows gm \<Longrightarrow> col < m_cols gm \<Longrightarrow> validateCoordinates gm row col = Inr ()"
  by (auto simp: validateCoordinates_def dest: leD)

lemma validate_fail:
  "\<not> (row < m_rows gm \<and> col < m_cols gm) \<Longrightarrow> validateCoordinates gm row col = Inl OutOfRange"
  by (auto simp: validateCoordinates_def not_less)

lemma updateSpecialPosition_eq:
  "updateSpecialPosition gr p row col t = ((row, col), grid_write (clear_old gr p) row col t)"
  by (cases p) (auto simp: updateSpecialPosition_def clear_old_def unset_def Let_def)

lemma setCellState_Start:
  "row < m_rows gm \<Longrightarrow> col < m_cols gm \<Longrightarrow>
   setCellState gm row col Start =
     Inr (gm\<lparr>m_grid := grid_write (clear_old (m_grid gm) (m_start gm)) row col Start,
             m_start := (row, col)\<rparr>)"
  by (simp add: setCellState_def validate_ok updateSpecialPosition_eq)

lemma setCellState_Goal:
  "row < m_rows gm \<Longrightarrow> col < m_cols gm \<Longrightarrow>
   setCellState gm row col Goal =
     Inr (gm\<lparr>m_grid := grid_write (clear_old (m_grid gm) (m_goal gm)) row col Goal,
             m_goal := (row, col)\<rparr>)"
  by (simp add: setCellState_def validate_ok updateSpecialPosition_eq)

lemma setCellState_plain:
  "row < m_rows gm \<Longrightarrow> col < m_cols gm \<Longrightarrow> t \<noteq> Start \<Longrightarrow> t \<noteq> Goal \<Longrightarrow>
   setCellState gm row col t = Inr (gm\<lparr>m_grid := grid_write (m_grid gm) row col t\<rparr>)"
  by (simp add: setCellState_def validate_ok)

lemma setCellState_fail:
  "\<not> (row < m_rows gm \<and> col < m_cols gm) \<Longrightarrow> setCellState gm row col t = Inl OutOfRange"
  by (simp add: setCellState_def validate_fail)

lemma cellState_ok:
  "row < m_rows gm \<Longrightarrow> col < m_cols gm \<Longrightarrow>
   cellState gm row col = Inr (grid_read (m_grid gm) row col)"
  by (simp add: cellState_def validate_ok)

lemma cellState_fail:
  "\<not> (row < m_rows gm \<and> col < m_cols gm) \<Longrightarrow> cellState gm row col = Inl OutOfRange"
  by (simp add: cellState_def validate_fail)

text \<open>
  C8: \<open>cellState\<close> and \<open>setCellState\<close> fail with \<open>OutOfRange\<close> exactly when
  \<open>row >= rows\<close> or \<open>col >= cols\<close>. A failed \<open>setCellState\<close> leaves the model as it was,
  tracked positions included; within the bounds \<open>cellState\<close> returns the cell at that very
  coordinate and \<open>setCellState\<close> succeeds: no coordinate is clamped into range.
\<close>

theorem out_of_range_exact:
  "(cellState gm row col = Inl OutOfRange \<longleftrightarrow> row \<ge> m_rows gm \<or> col \<ge> m_cols gm) \<and>
   (setCellState gm row col t = Inl OutOfRange \<longleftrightarrow> row \<ge> m_rows gm \<or> col \<ge> m_cols gm) \<and>
   (row \<ge> m_rows gm \<or> col \<ge> m_cols gm \<longrightarrow> setCells gm [(row, col, t)] = gm) \<and>
   (row < m_rows gm \<and> col < m_cols gm \<longrightarrow>
      cellState gm row col = Inr (grid_read (m_grid gm) row col) \<and>
      (\<exists>gm'. setCellState gm row col t = Inr gm'))"
proof (cases "row < m_rows gm \<and> col < m_cols gm")
  case True
  then have a: "\<not> (row \<ge> m_rows gm \<or> col \<ge> m_cols gm)" by (auto dest: leD)
  have "cellState gm row col = Inr (grid_read (m_grid gm) row col)"
    using True by (simp add: cellState_ok)
  moreover have "\<exists>gm'. setCellState gm row col t = Inr gm'"
    using True by (cases "t = Start"; cases "t = Goal")
      (simp_all add: setCellState_Start setCellState_Goal setCellState_plain)
  ultimately show ?thesis using a True by auto
next
  case False
  then have a: "row \<ge> m_rows gm \<or> col \<ge> m_cols gm" by (auto simp: not_less)
  have "cellState gm row col = Inl OutOfRange" "setCellState gm row col t = Inl OutOfRange"
    using False by (simp_all add: cellState_fail setCellState_fail)
  then show ?thesis using a False by simp
qed

theorem out_of_range_exact_witness:
  "cellState (GridModel_new 3 3) 3 0 = Inl OutOfRange \<and>
   setCellState (GridModel_new 3 3) 1 200 Wall = Inl OutOfRange \<and>
   setCells (GridModel_new 3 3) [(1, 200, Wall)] = GridModel_new 3 3 \<and>
   cellState (GridModel_new 3 3) 1 2 = Inr Normal"
  using out_of_range_exact [of "GridModel_new 3 3" 3 0 Wall]
    out_of_range_exact [of "GridModel_new 3 3" 1 200 Wall]
    out_of_range_exact [of "GridModel_new 3 3" 1 2 Wall]
  by (simp add: GridModel_new_def grid_read_def)


subsection \<open>The shape is kept\<close>

lemma wf_grid_new: "wf_grid (GridModel_new rows cols)"
  by (simp add: wf_grid_def GridModel_new_def unset_def)

lemma wf_grid_clear: "wf_grid gm \<Longrightarrow> wf_grid (clearGrid gm)"
  by (simp add: wf_grid_def clearGrid_def unset_def in_bounds_def)

lemma setCellState_cases:
  assumes "setCellState gm row col t = Inr gm'"
  obtains
    (start) "t = Start" "row < m_rows gm" "col < m_cols gm"
      "gm' = gm\<lparr>m_grid := grid_write (clear_old (m_grid gm) (m_start gm)) row col Start,
                 m_start := (row, col)\<rparr>"
  | (goal) "t = Goal" "row < m_rows gm" "col < m_cols gm"
      "gm' = gm\<lparr>m_grid := grid_write (clear_old (m_grid gm) (m_goal gm)) row col Goal,
                 m_goal := (row, col)\<rparr>"
  | (plain) "t \<noteq> Start" "t \<noteq> Goal" "row < m_rows gm" "col < m_cols gm"
      "gm' = gm\<lparr>m_grid := grid_write (m_grid gm) row col t\<rparr>"
proof -
  have ok: "row < m_rows gm" "col < m_cols gm"
    using assms setCellState_fail [of row gm col t] by auto
  consider "t = Start" | "t = Goal" | "t \<noteq> Start \<and> t \<noteq> Goal" by auto
  then show thesis
  proof cases
    case 1
    then show ?thesis using assms ok start by (simp add: setCellState_Start)
  next
    case 2
    then show ?thesis using assms ok goal by (simp add: setCellState_Goal)
  next
    case 3
    then show ?thesis using assms ok plain by (simp add: setCellState_plain)
  qed
qed

lemma wf_grid_setCellState:
  assumes "wf_grid gm" and "setCellState gm row col t = Inr gm'"
  shows "wf_grid gm'"
proof -
  have len: "length (m_grid gm) = unat (m_rows gm)"
    and rows: "\<forall>x \<in> set (m_grid gm). length x = unat (m_cols gm)"
    and st: "m_start gm = unset \<or> in_bounds gm (m_start gm)"
    and go: "m_goal gm = unset \<or> in_bounds gm (m_goal gm)"
    using assms(1) by (simp_all add: wf_grid_def)
  from assms(2) show ?thesis
  proof (cases rule: setCellState_cases)
    case start
    note eq = start(4)
    have "\<forall>x \<in> set (m_grid gm'). length x = unat (m_cols gm')"
      unfolding eq using grid_write_row_lengths [OF clear_old_row_lengths [OF rows]] by simp
    moreover have "length (m_grid gm') = unat (m_rows gm')"
      unfolding eq using len by simp
    moreover have "in_bounds gm' (m_start gm')"
      unfolding eq using start(2,3) by (simp add: in_bounds_def)
    moreover have "m_goal gm' = unset \<or> in_bounds gm' (m_goal gm')"
      unfolding eq using go by (simp add: in_bounds_def)
    ultimately show ?thesis unfolding wf_grid_def by blast
  next
    case goal
    note eq = goal(4)
    have "\<forall>x \<in> set (m_grid gm'). length x = unat (m_cols gm')"
      unfolding eq using grid_write_row_lengths [OF clear_old_row_lengths [OF rows]] by simp
    moreover have "length (m_grid gm') = unat (m_rows gm')"
      unfolding eq using len by simp
    moreover have "in_bounds gm' (m_goal gm')"
      unfolding eq using goal(2,3) by (simp add: in_bounds_def)
    moreover have "m_start gm' = unset \<or> in_bounds gm' (m_start gm')"
      unfolding eq using st by (simp add: in_bounds_def)
    ultimately show ?thesis unfolding wf_grid_def by blast
  next
    case plain
    note eq = plain(5)
    have "\<forall>x \<in> set (m_grid gm'). length x = unat (m_cols gm')"
      unfolding eq using grid_write_row_lengths [OF rows] by simp
    moreover have "length (m_grid gm') = unat (m_rows gm')"
      unfolding eq using len by simp
    moreover have "m_start gm' = unset \<or> in_bounds gm' (m_start gm')"
      unfolding eq using st by (simp add: in_bounds_def)
    moreover have "m_goal gm' = unset \<or> in_bounds gm' (m_goal gm')"
      unfolding eq using go by (simp add: in_bounds_def)
    ultimately show ?thesis unfolding wf_grid_def by blast
  qed
qed

lemma wf_grid_setCells: "wf_grid gm \<Longrightarrow> wf_grid (setCells gm cs)"
proof (induction gm cs rule: setCells.induct)
  case (1 gm)
  then show ?case by simp
next
  case (2 gm row col t cs)
  then show ?case
    by (cases "setCellState gm row col t") (auto dest: wf_grid_setCellState)
qed

subsection \<open>Where the special cells are\<close>

lemma cell_after_write:
  assumes "wf_grid gm" and "row < m_rows gm" and "col < m_cols gm"
  shows "cell (gm\<lparr>m_grid := grid_write (m_grid gm) row col t\<rparr>) p =
         (if p = (row, col) then t else cell gm p)"
  using assms grid_read_write_shape [of "m_grid gm" "m_rows gm" "m_cols gm" row col t "fst p" "snd p"]
  by (cases p) (simp add: cell_def wf_grid_def)

lemma grid_read_special:
  assumes "wf_grid gm" and "row < m_rows gm" and "col < m_cols gm"
    and "old = unset \<or> in_bounds gm old"
  shows "grid_read (grid_write (clear_old (m_grid gm) old) row col t) r c =
         (if (r, c) = (row, col) then t
          else if old \<noteq> unset \<and> (r, c) = old then Normal
          else grid_read (m_grid gm) r c)"
proof -
  have len: "length (m_grid gm) = unat (m_rows gm)"
    and rows: "\<forall>x \<in> set (m_grid gm). length x = unat (m_cols gm)"
    using assms(1) by (simp_all add: wf_grid_def)
  have old: "old = unset \<or> (fst old < m_rows gm \<and> snd old < m_cols gm)"
    using assms(4) by (simp add: in_bounds_def)
  have len': "length (clear_old (m_grid gm) old) = unat (m_rows gm)" using len by simp
  show ?thesis
    unfolding grid_read_write_shape [OF len' clear_old_row_lengths [OF rows] assms(2,3)]
      grid_read_clear_old [OF len rows old]
    by simp
qed

lemma tracked_setCellState:
  assumes "wf_grid gm" and "tracked gm" and "setCellState gm row col t = Inr gm'"
  shows "tracked gm'"
proof -
  have st: "m_start gm = unset \<or> in_bounds gm (m_start gm)"
    and go: "m_goal gm = unset \<or> in_bounds gm (m_goal gm)"
    using assms(1) by (simp_all add: wf_grid_def)
  have S: "\<And>p. in_bounds gm p \<Longrightarrow> cell gm p = Start \<Longrightarrow> p = m_start gm \<or> p = unset"
    and G: "\<And>p. in_bounds gm p \<Longrightarrow> cell gm p = Goal \<Longrightarrow> p = m_goal gm \<or> p = unset"
    using assms(2) by (auto simp: tracked_def is_type_def)
  from assms(3) show ?thesis
  proof (cases rule: setCellState_cases)
    case start
    have c: "cell gm' p = (if p = (row, col) then Start
          else if m_start gm \<noteq> unset \<and> p = m_start gm then Normal else cell gm p)" for p
      by (cases p) (simp add: start(4) cell_def grid_read_special [OF assms(1) start(2,3) st])
    have b: "\<And>p. in_bounds gm' p = in_bounds gm p"
      unfolding start(4) by (simp add: in_bounds_def)
    have m: "m_start gm' = (row, col)" "m_goal gm' = m_goal gm"
      unfolding start(4) by simp_all
    show ?thesis
      unfolding tracked_def is_type_def b c m using S G by (auto split: if_splits)
  next
    case goal
    have c: "cell gm' p = (if p = (row, col) then Goal
          else if m_goal gm \<noteq> unset \<and> p = m_goal gm then Normal else cell gm p)" for p
      by (cases p) (simp add: goal(4) cell_def grid_read_special [OF assms(1) goal(2,3) go])
    have b: "\<And>p. in_bounds gm' p = in_bounds gm p"
      unfolding goal(4) by (simp add: in_bounds_def)
    have m: "m_goal gm' = (row, col)" "m_start gm' = m_start gm"
      unfolding goal(4) by simp_all
    show ?thesis
      unfolding tracked_def is_type_def b c m using S G by (auto split: if_splits)
  next
    case plain
    have c: "\<And>p. cell gm' p = (if p = (row, col) then t else cell gm p)"
      unfolding plain(5) using cell_after_write [OF assms(1) plain(3,4)] by simp
    have b: "\<And>p. in_bounds gm' p = in_bounds gm p"
      unfolding plain(5) by (simp add: in_bounds_def)
    have m: "m_goal gm' = m_goal gm" "m_start gm' = m_start gm"
      unfolding plain(5) by simp_all
    show ?thesis
      unfolding tracked_def is_type_def b c m using S G plain(1,2) by (auto split: if_splits)
  qed
qed

lemma tracked_setCells: "wf_grid gm \<Longrightarrow> tracked gm \<Longrightarrow> tracked (setCells gm cs)"
proof (induction gm cs rule: setCells.induct)
  case (1 gm)
  then show ?case by simp
next
  case (2 gm row col t cs)
  then show ?case
    by (cases "setCellState gm row col t")
      (auto dest: wf_grid_setCellState tracked_setCellState)
qed

lemma tracked_new: "tracked (GridModel_new rows cols)"
proof -
  have "cell (GridModel_new rows cols) p = Normal" if "in_bounds (GridModel_new rows cols) p" for p
    using that
    by (cases p) (simp add: cell_def grid_read_def GridModel_new_def in_bounds_def word_less_nat_alt)
  then show ?thesis by (auto simp: tracked_def is_type_def)
qed

text \<open>
  C2, as the code has it: after any sequence of \<open>setCellState\<close> calls on a freshly
  constructed grid, every \<open>Start\<close> cell is at the tracked start position or at the
  coordinate \<open>(101, 101)\<close>, and every \<open>Goal\<close> cell is at the tracked goal position or at
  \<open>(101, 101)\<close>. So on a grid that does not contain the coordinate \<open>(101, 101)\<close> there
  is at most one \<open>Start\<close> and at most one \<open>Goal\<close> cell, and an absent tracked
  position means that no cell has the type. Nothing is said of the cell at a tracked
  position.
\<close>

theorem special_cells_tracked:
  assumes "gm = setCells (GridModel_new rows cols) cs"
  shows "(\<forall>p. is_type gm Start p \<longrightarrow> p = m_start gm \<or> p = unset) \<and>
         (\<forall>p. is_type gm Goal p \<longrightarrow> p = m_goal gm \<or> p = unset) \<and>
         (\<not> in_bounds gm unset \<longrightarrow>
            (\<forall>p q. is_type gm Start p \<longrightarrow> is_type gm Start q \<longrightarrow> p = q) \<and>
            (\<forall>p q. is_type gm Goal p \<longrightarrow> is_type gm Goal q \<longrightarrow> p = q) \<and>
            (m_start gm = unset \<longrightarrow> (\<forall>p. \<not> is_type gm Start p)) \<and>
            (m_goal gm = unset \<longrightarrow> (\<forall>p. \<not> is_type gm Goal p)))"
proof -
  have t: "tracked gm"
    unfolding assms by (rule tracked_setCells [OF wf_grid_new tracked_new])
  then have S: "\<And>p. is_type gm Start p \<Longrightarrow> p = m_start gm \<or> p = unset"
    and G: "\<And>p. is_type gm Goal p \<Longrightarrow> p = m_goal gm \<or> p = unset"
    by (auto simp: tracked_def)
  have nS: "p = m_start gm" if "\<not> in_bounds gm unset" "is_type gm Start p" for p
    using that S [of p] by (auto simp: is_type_def)
  have nG: "p = m_goal gm" if "\<not> in_bounds gm unset" "is_type gm Goal p" for p
    using that G [of p] by (auto simp: is_type_def)
  show ?thesis
  proof (intro conjI impI allI)
    fix p assume "is_type gm Start p" then show "p = m_start gm \<or> p = unset" by (rule S)
  next
    fix p assume "is_type gm Goal p" then show "p = m_goal gm \<or> p = unset" by (rule G)
  next
    fix p q assume "\<not> in_bounds gm unset" "is_type gm Start p" "is_type gm Start q"
    then show "p = q" using nS [of p] nS [of q] by simp
  next
    fix p q assume "\<not> in_bounds gm unset" "is_type gm Goal p" "is_type gm Goal q"
    then show "p = q" using nG [of p] nG [of q] by simp
  next
    fix p assume "\<not> in_bounds gm unset" "m_start gm = unset"
    then show "\<not> is_type gm Start p" using nS [of p] by (auto simp: is_type_def)
  next
    fix p assume "\<not> in_bounds gm unset" "m_goal gm = unset"
    then show "\<not> is_type gm Goal p" using nG [of p] by (auto simp: is_type_def)
  qed
qed


text \<open>Two \<open>Start\<close> cells: on a grid that contains \<open>(101, 101)\<close>, a start placed there
  is taken for the default when the start is placed again, and is not reset.\<close>

lemma setCellState_Start_cell:
  assumes "wf_grid gm" and "row < m_rows gm" and "col < m_cols gm"
    and "gm' = gm\<lparr>m_grid := grid_write (clear_old (m_grid gm) (m_start gm)) row col Start,
                     m_start := (row, col)\<rparr>"
  shows "setCellState gm row col Start = Inr gm'" and "wf_grid gm'"
    and "m_start gm' = (row, col)" and "m_rows gm' = m_rows gm" and "m_cols gm' = m_cols gm"
    and "cell gm' p = (if p = (row, col) then Start
           else if m_start gm \<noteq> unset \<and> p = m_start gm then Normal else cell gm p)"
proof -
  show eq: "setCellState gm row col Start = Inr gm'"
    unfolding assms(4) using assms(2,3) by (rule setCellState_Start)
  show "wf_grid gm'" by (rule wf_grid_setCellState [OF assms(1) eq])
  show "m_start gm' = (row, col)" "m_rows gm' = m_rows gm" "m_cols gm' = m_cols gm"
    by (simp_all add: assms(4))
  have st: "m_start gm = unset \<or> in_bounds gm (m_start gm)"
    using assms(1) by (simp add: wf_grid_def)
  show "cell gm' p = (if p = (row, col) then Start
          else if m_start gm \<noteq> unset \<and> p = m_start gm then Normal else cell gm p)"
    by (cases p) (simp add: assms(4) cell_def grid_read_special [OF assms(1,2,3) st])
qed

lemma two_start_cells:
  assumes "wf_grid gm" and "m_start gm = unset" and "in_bounds gm unset"
    and "row < m_rows gm" and "col < m_cols gm"
  shows "is_type (setCells gm [(101, 101, Start), (row, col, Start)]) Start (row, col) \<and>
         is_type (setCells gm [(101, 101, Start), (row, col, Start)]) Start (101, 101)"
proof -
  have u: "(101 :: u8) < m_rows gm" "(101 :: u8) < m_cols gm"
    using assms(3) by (simp_all add: in_bounds_def unset_def)
  define gm1 where "gm1 = gm\<lparr>m_grid := grid_write (clear_old (m_grid gm) (m_start gm)) 101 101 Start,
                     m_start := (101, 101)\<rparr>"
  note 1 = setCellState_Start_cell [OF assms(1) u gm1_def]
  have rc: "row < m_rows gm1" "col < m_cols gm1" using assms(4,5) 1(4,5) by simp_all
  define gm2 where "gm2 = gm1\<lparr>m_grid := grid_write (clear_old (m_grid gm1) (m_start gm1)) row col Start,
                     m_start := (row, col)\<rparr>"
  note 2 = setCellState_Start_cell [OF 1(2) rc gm2_def]
  have s: "setCells gm [(101, 101, Start), (row, col, Start)] = gm2"
    using 1(1) 2(1) by simp
  have c1: "cell gm2 (row, col) = Start" by (simp add: 2(6))
  have c2: "cell gm2 (101, 101) = Start" by (simp add: 2(6) 1(3,6) unset_def)
  show ?thesis
    unfolding s is_type_def in_bounds_def using c1 c2 2(4,5) 1(4,5) u assms(4,5)
    by simp
qed

text \<open>
  C2 as stated fails twice. On the \<open>1 x 1\<close> grid, after \<open>Start\<close> and then \<open>Wall\<close> are
  set at \<open>(0, 0)\<close>, the tracked start is still \<open>(0, 0)\<close> while that cell is \<open>Wall\<close>. On the
  \<open>102 x 102\<close> grid, after \<open>Start\<close> is set at \<open>(101, 101)\<close> and then at \<open>(0, 0)\<close>, both
  cells are \<open>Start\<close>.
\<close>

theorem special_positions_counterexample:
  "m_start (setCells (GridModel_new 1 1) [(0, 0, Start), (0, 0, Wall)]) = (0, 0) \<and>
   (0, 0) \<noteq> unset \<and>
   in_bounds (setCells (GridModel_new 1 1) [(0, 0, Start), (0, 0, Wall)]) (0, 0) \<and>
   cell (setCells (GridModel_new 1 1) [(0, 0, Start), (0, 0, Wall)]) (0, 0) = Wall \<and>
   is_type (setCells (GridModel_new 102 102) [(101, 101, Start), (0, 0, Start)]) Start (0, 0) \<and>
   is_type (setCells (GridModel_new 102 102) [(101, 101, Start), (0, 0, Start)]) Start (101, 101) \<and>
   (0, 0) \<noteq> ((101, 101) :: pos)"
proof -
  have a: "m_start (setCells (GridModel_new 1 1) [(0, 0, Start), (0, 0, Wall)]) = (0, 0) \<and>
   (0, 0) \<noteq> unset \<and>
   in_bounds (setCells (GridModel_new 1 1) [(0, 0, Start), (0, 0, Wall)]) (0, 0) \<and>
   cell (setCells (GridModel_new 1 1) [(0, 0, Start), (0, 0, Wall)]) (0, 0) = Wall"
    by code_simp
  have b: "is_type (setCells (GridModel_new 102 102) [(101, 101, Start), (0, 0, Start)]) Start (0, 0) \<and>
   is_type (setCells (GridModel_new 102 102) [(101, 101, Start), (0, 0, Start)]) Start (101, 101)"
    by (rule two_start_cells [OF wf_grid_new])
      (simp_all add: GridModel_new_def unset_def in_bounds_def)
  show ?thesis using a b by simp
qed

theorem special_cells_tracked_witness:
  "is_type (setCells (GridModel_new 3 3) [(0, 0, Start), (1, 1, Start), (2, 2, Goal)]) Start (1, 1) \<and>
   m_start (setCells (GridModel_new 3 3) [(0, 0, Start), (1, 1, Start), (2, 2, Goal)]) = (1, 1) \<and>
   \<not> in_bounds (setCells (GridModel_new 3 3) [(0, 0, Start), (1, 1, Start), (2, 2, Goal)]) unset \<and>
   \<not> is_type (setCells (GridModel_new 3 3) [(0, 0, Start), (1, 1, Start), (2, 2, Goal)]) Start (0, 0)"
proof -
  let ?gm = "setCells (GridModel_new 3 3) [(0, 0, Start), (1, 1, Start), (2, 2, Goal)]"
  have e: "is_type ?gm Start (1, 1)" "\<not> in_bounds ?gm unset" "(1, 1) \<noteq> unset"
    "m_start ?gm \<noteq> (0, 0)" "(0, 0) \<noteq> unset"
    by code_simp+
  note t = special_cells_tracked [OF refl, of 3 3 "[(0, 0, Start), (1, 1, Start), (2, 2, Goal)]"]
  have 1: "(1, 1) = m_start ?gm" using t e(1,3) by blast
  have 2: "\<not> is_type ?gm Start (0, 0)"
  proof
    assume "is_type ?gm Start (0, 0)"
    from t [THEN conjunct1, rule_format, OF this] e(4,5) show False by metis
  qed
  show ?thesis using e(1,2) 1 2 by simp
qed

text \<open>\<open>setCellState\<close> with a type other than \<open>Start\<close> and \<open>Goal\<close> writes the cell and
  leaves both tracked positions as they were, whatever the cell held.\<close>

lemma setCellState_plain_keeps_tracked:
  assumes "wf_grid gm" and "row < m_rows gm" and "col < m_cols gm"
    and "t \<noteq> Start" and "t \<noteq> Goal"
  shows "\<exists>gm'. setCellState gm row col t = Inr gm' \<and> cell gm' (row, col) = t \<and>
           m_start gm' = m_start gm \<and> m_goal gm' = m_goal gm"
  using assms cell_after_write [OF assms(1,2,3), of t "(row, col)"]
  by (simp add: setCellState_plain)

text \<open>
  C3 at a concrete input: on the \<open>1 x 1\<close> grid whose cell \<open>(0, 0)\<close> is the \<open>Start\<close> cell,
  \<open>setCellState(0, 0, Wall)\<close> sets the cell to \<open>Wall\<close> and \<open>startPosition()\<close> is still
  \<open>(0, 0)\<close>: the tracked position is not cleared.
\<close>

theorem overwritten_start_stays_tracked:
  "is_type (setCells (GridModel_new 1 1) [(0, 0, Start)]) Start (0, 0) \<and>
   startPosition (setCells (GridModel_new 1 1) [(0, 0, Start)]) = (0, 0) \<and>
   cell (setCells (GridModel_new 1 1) [(0, 0, Start), (0, 0, Wall)]) (0, 0) = Wall \<and>
   startPosition (setCells (GridModel_new 1 1) [(0, 0, Start), (0, 0, Wall)]) = (0, 0)"
  by code_simp


section \<open>The pathfinder: proofs\<close>

text \<open>
  C1 at a concrete input: on a freshly constructed \<open>3 x 3\<close> grid (no start, no goal),
  \<open>findPath\<close> returns the empty path and a \<open>totalCost\<close> of \<open>0.0\<close>, not \<open>-1\<close>.
\<close>

theorem unset_inputs_return_zero:
  "findPath_fresh list_pq (GridModel_new 3 3) = Some (Inr \<lparr>path = [], totalCost = Fin 0\<rparr>)"
  by code_simp


text \<open>
  C10: \<open>findPath\<close> tests the row of each tracked position against \<open>101\<close> and nothing
  else. When the row of the start or of the goal is \<open>101\<close>, whatever the column and
  whether or not the coordinate is a cell of the grid, it returns at once what it returns
  for unset positions (the empty path, cost \<open>0.0\<close>, the pathfinder untouched). When
  neither row is \<open>101\<close>, whatever the columns, it initialises the tables, pushes the start
  node and runs the search loop.
\<close>

theorem sentinel_row_only:
  "(fst (m_start gm) = 101 \<or> fst (m_goal gm) = 101 \<longrightarrow>
      findPath P gm pf = Some (Inr (\<lparr>path = [], totalCost = Fin 0\<rparr>, pf)) \<and>
      findPath P gm pf = findPath P (gm\<lparr>m_start := (101, 101), m_goal := (101, 101)\<rparr>) pf) \<and>
   (fst (m_start gm) \<noteq> 101 \<and> fst (m_goal gm) \<noteq> 101 \<longrightarrow>
      findPath P gm pf =
        search_loop P gm (m_goal gm)
          ((initialize gm pf)
             \<lparr>m_costGrid := (m_costGrid (initialize gm pf))(m_start gm := Fin 0),
              m_queue := pq_push P
                \<lparr>node_row = fst (m_start gm), node_col = snd (m_start gm), node_g = 0,
                  node_f = heuristic gm (fst (m_start gm)) (snd (m_start gm))\<rparr>
                (m_queue (initialize gm pf))\<rparr>))"
  by (simp add: findPath_def Let_def startPosition_def goalPosition_def)

theorem sentinel_row_only_witness:
  "fst (m_start (setCells (GridModel_new 102 1) [(101, 0, Start), (100, 0, Goal)])) = 101 \<and>
   in_bounds (setCells (GridModel_new 102 1) [(101, 0, Start), (100, 0, Goal)]) (101, 0) \<and>
   findPath_fresh list_pq (setCells (GridModel_new 102 1) [(101, 0, Start), (100, 0, Goal)]) =
     Some (Inr \<lparr>path = [], totalCost = Fin 0\<rparr>) \<and>
   m_start (setCells (GridModel_new 1 103) [(0, 101, Start), (0, 102, Goal)]) = (0, 101) \<and>
   findPath_fresh list_pq (setCells (GridModel_new 1 103) [(0, 101, Start), (0, 102, Goal)]) =
     Some (Inr \<lparr>path = [(0, 101), (0, 102)], totalCost = Fin 1\<rparr>)"
  using sentinel_row_only [of "setCells (GridModel_new 102 1) [(101, 0, Start), (100, 0, Goal)]"
      list_pq "Pathfinder_new list_pq"]
    sentinel_row_only [of "setCells (GridModel_new 1 103) [(0, 101, Start), (0, 102, Goal)]"
      list_pq "Pathfinder_new list_pq"]
  by code_simp

subsection \<open>The neighbour loop\<close>

lemma uint_word_of_int_u8: "0 \<le> n \<Longrightarrow> n < uint (w :: u8) \<Longrightarrow> uint (word_of_int n :: u8) = n"
proof -
  assume a: "0 \<le> n" "n < uint w"
  have "uint w < 2 ^ 8" using uint_bounded [of w] by simp
  then have "n < 2 ^ 8" using a by linarith
  then show ?thesis using a by (simp add: uint_word_of_int_eq take_bit_int_eq_self)
qed

lemma nbr_sound:
  assumes "nbr_ok gm u i" and "i < 4"
  shows "in_bounds gm (nbr_pos u i)" and "adjacent u (nbr_pos u i)"
    and "uint (fst (nbr_pos u i)) = fst (nbr u i)" and "uint (snd (nbr_pos u i)) = snd (nbr u i)"
proof -
  have r: "uint (word_of_int (fst (nbr u i)) :: u8) = fst (nbr u i)"
    and c: "uint (word_of_int (snd (nbr u i)) :: u8) = snd (nbr u i)"
    using assms(1) by (auto simp: nbr_ok_def intro: uint_word_of_int_u8)
  show "uint (fst (nbr_pos u i)) = fst (nbr u i)" "uint (snd (nbr_pos u i)) = snd (nbr u i)"
    using r c by (simp_all add: nbr_pos_def)
  show "in_bounds gm (nbr_pos u i)"
    using assms(1) r c by (simp add: in_bounds_def nbr_pos_def nbr_ok_def word_less_alt)
  have "i = 0 \<or> i = 1 \<or> i = 2 \<or> i = 3" using assms(2) by arith
  then show "adjacent u (nbr_pos u i)"
    unfolding adjacent_def nbr_pos_def fst_conv snd_conv r c
    by (auto simp: nbr_def dr_def dc_def)
qed

lemma nbr_complete:
  assumes "in_bounds gm w" and "adjacent u w"
  shows "\<exists>i<4. nbr_ok gm u i \<and> nbr_pos u i = w"
proof -
  have b: "uint (fst w) < uint (m_rows gm)" "uint (snd w) < uint (m_cols gm)"
    using assms(1) by (simp_all add: in_bounds_def word_less_alt)
  have "(uint (fst w) = uint (fst u) - 1 \<and> uint (snd w) = uint (snd u)) \<or>
        (uint (fst w) = uint (fst u) + 1 \<and> uint (snd w) = uint (snd u)) \<or>
        (uint (fst w) = uint (fst u) \<and> uint (snd w) = uint (snd u) - 1) \<or>
        (uint (fst w) = uint (fst u) \<and> uint (snd w) = uint (snd u) + 1)"
    using assms(2) unfolding adjacent_def by linarith
  then consider (0) "nbr u 0 = (uint (fst w), uint (snd w))"
    | (1) "nbr u 1 = (uint (fst w), uint (snd w))"
    | (2) "nbr u 2 = (uint (fst w), uint (snd w))"
    | (3) "nbr u 3 = (uint (fst w), uint (snd w))"
    by (auto simp: nbr_def dr_def dc_def)
  then show ?thesis
  proof cases
    case 0
    then have "nbr_ok gm u 0 \<and> nbr_pos u 0 = w" using b by (simp add: nbr_ok_def nbr_pos_def)
    then show ?thesis by (intro exI [of _ 0]) simp
  next
    case 1
    then have "nbr_ok gm u 1 \<and> nbr_pos u 1 = w" using b by (simp add: nbr_ok_def nbr_pos_def)
    then show ?thesis by (intro exI [of _ 1]) simp
  next
    case 2
    then have "nbr_ok gm u 2 \<and> nbr_pos u 2 = w" using b by (simp add: nbr_ok_def nbr_pos_def)
    then show ?thesis by (intro exI [of _ 2]) simp
  next
    case 3
    then have "nbr_ok gm u 3 \<and> nbr_pos u 3 = w" using b by (simp add: nbr_ok_def nbr_pos_def)
    then show ?thesis by (intro exI [of _ 3]) simp
  qed
qed

lemma getCost_neg: "getCost t < 0 \<longleftrightarrow> t = Wall"
  by (cases t) (simp_all add: getCost_def)

lemma getCost_pos: "t \<noteq> Wall \<Longrightarrow> 1 / 2 \<le> getCost t"
  by (cases t) (simp_all add: getCost_def)

text \<open>What one turn of the neighbour loop does: nothing, unless the neighbour is a cell
  of the grid, is not a wall and is reached at a lower cost than recorded; then the
  parent, the cost and the queue are updated. \<open>cellState\<close> never throws here.\<close>

lemma relax_char:
  assumes "i < 4"
  shows "relax P gm e i pf = Inr (relaxed P gm e i pf)"
proof (cases "nbr_ok gm (node_pos e) i")
  case False
  then show ?thesis
    by (auto simp: relax_def relaxed_def improves_def Let_def nbr_ok_def nbr_def node_pos_def
        rowCount_def colCount_def)
next
  case True
  let ?x = "nbr_pos (node_pos e) i"
  have chk: "\<not> (uint (node_row e) + dr ! i < 0 \<or> uint (node_row e) + dr ! i \<ge> uint (rowCount gm) \<or>
            uint (node_col e) + dc ! i < 0 \<or> uint (node_col e) + dc ! i \<ge> uint (colCount gm))"
    using True by (auto simp: nbr_ok_def nbr_def node_pos_def rowCount_def colCount_def)
  have x: "(word_of_int (uint (node_row e) + dr ! i), word_of_int (uint (node_col e) + dc ! i)) = ?x"
    by (simp add: nbr_pos_def nbr_def node_pos_def)
  have xr: "word_of_int (uint (node_row e) + dr ! i) = fst ?x"
    and xc: "word_of_int (uint (node_col e) + dc ! i) = snd ?x"
    by (simp_all add: nbr_pos_def nbr_def node_pos_def)
  have "in_bounds gm ?x" using nbr_sound(1) [OF True assms] .
  then have cs: "cellState gm (fst ?x) (snd ?x) = Inr (cell gm ?x)"
    by (simp add: in_bounds_def cellState_ok cell_def)
  show ?thesis
    unfolding relax_def Let_def if_not_P [OF chk] xr xc cs
    using True
    by (simp add: relaxed_def improves_def improve_def getCost_neg step_cost_def h_of_def
        not_less node_pos_def)
qed

lemma explore_char:
  "explore P gm e 0 pf =
     Inr (relaxed P gm e 3 (relaxed P gm e 2 (relaxed P gm e 1 (relaxed P gm e 0 pf))))"
proof -
  have l: "length dr = 4" by (simp add: dr_def)
  have 4: "explore P gm e 4 pf' = Inr pf'" for pf'
    by (subst explore.simps) (simp add: l)
  have 3: "explore P gm e 3 pf' = Inr (relaxed P gm e 3 pf')" for pf'
    by (subst explore.simps) (simp add: l relax_char 4 numeral_2_eq_2 numeral_3_eq_3)
  have 2: "explore P gm e 2 pf' = Inr (relaxed P gm e 3 (relaxed P gm e 2 pf'))" for pf'
    by (subst explore.simps) (simp add: l relax_char 3 numeral_2_eq_2 numeral_3_eq_3)
  have 1: "explore P gm e 1 pf' =
      Inr (relaxed P gm e 3 (relaxed P gm e 2 (relaxed P gm e 1 pf')))" for pf'
    by (subst explore.simps) (simp add: l relax_char 2 numeral_2_eq_2 numeral_3_eq_3)
  show ?thesis
    by (subst explore.simps) (simp add: l relax_char 1 numeral_2_eq_2 numeral_3_eq_3)
qed

subsection \<open>The priority queue's contract\<close>

lemma pq_empty_iff: "pq_contract P heap items \<Longrightarrow> heap q \<Longrightarrow> pq_empty P q \<longleftrightarrow> items q = {#}"
  unfolding pq_contract_def by blast

lemma pq_push_heap: "pq_contract P heap items \<Longrightarrow> heap q \<Longrightarrow> heap (pq_push P n q)"
  unfolding pq_contract_def by blast

lemma pq_push_items:
  "pq_contract P heap items \<Longrightarrow> heap q \<Longrightarrow> items (pq_push P n q) = add_mset n (items q)"
  unfolding pq_contract_def by blast

lemma pq_top_in: "pq_contract P heap items \<Longrightarrow> heap q \<Longrightarrow> items q \<noteq> {#} \<Longrightarrow> pq_top P q \<in># items q"
  unfolding pq_contract_def by blast

lemma pq_top_least:
  "pq_contract P heap items \<Longrightarrow> heap q \<Longrightarrow> m \<in># items q \<Longrightarrow> node_f (pq_top P q) \<le> node_f m"
  unfolding pq_contract_def by (metis not_less empty_iff set_mset_empty)

lemma pq_pop_heap: "pq_contract P heap items \<Longrightarrow> heap q \<Longrightarrow> items q \<noteq> {#} \<Longrightarrow> heap (pq_pop P q)"
  unfolding pq_contract_def by blast

lemma pq_pop_items:
  "pq_contract P heap items \<Longrightarrow> heap q \<Longrightarrow> items q \<noteq> {#} \<Longrightarrow>
   items (pq_pop P q) = items q - {#pq_top P q#}"
  unfolding pq_contract_def by blast

lemma pq_new_heap: "pq_contract P heap items \<Longrightarrow> heap (pq_new P)"
  unfolding pq_contract_def by blast

lemma pq_new_items: "pq_contract P heap items \<Longrightarrow> items (pq_new P) = {#}"
  unfolding pq_contract_def by blast

subsection \<open>The search loop\<close>

declare explore.simps [simp del]

lemma search_loop_empty:
  "pq_empty P (m_queue pf) \<Longrightarrow>
   search_loop P gm goal pf = Some (Inr (\<lparr>path = [], totalCost = Fin (- 1)\<rparr>, pf))"
  by (subst search_loop.simps) simp

lemma search_loop_skip:
  "\<not> pq_empty P (m_queue pf) \<Longrightarrow> m_visited pf (node_pos (pq_top P (m_queue pf))) \<Longrightarrow>
   search_loop P gm goal pf = search_loop P gm goal (popped P pf)"
  unfolding popped_def node_pos_def by (subst search_loop.simps) (simp add: Let_def)

lemma search_loop_found:
  "\<not> pq_empty P (m_queue pf) \<Longrightarrow> \<not> m_visited pf (node_pos (pq_top P (m_queue pf))) \<Longrightarrow>
   node_pos (pq_top P (m_queue pf)) = goal \<Longrightarrow>
   search_loop P gm goal pf =
     (case reconstructPath (visit P pf) goal of
        None \<Rightarrow> None
      | Some p \<Rightarrow> Some (Inr (\<lparr>path = p, totalCost = m_costGrid (visit P pf) goal\<rparr>, visit P pf)))"
  unfolding visit_def node_pos_def by (subst search_loop.simps) (auto simp: Let_def)

lemma search_loop_expand:
  "\<not> pq_empty P (m_queue pf) \<Longrightarrow> \<not> m_visited pf (node_pos (pq_top P (m_queue pf))) \<Longrightarrow>
   node_pos (pq_top P (m_queue pf)) \<noteq> goal \<Longrightarrow>
   search_loop P gm goal pf =
     search_loop P gm goal (explored P gm (pq_top P (m_queue pf)) (visit P pf))"
  unfolding visit_def node_pos_def explored_def
  by (subst search_loop.simps) (auto simp: Let_def explore_char prod_eq_iff)

lemma relaxed_frame:
  assumes "pq_contract P heap items" and "heap (m_queue pf)"
  shows "heap (m_queue (relaxed P gm e i pf))"
    and "m_visited (relaxed P gm e i pf) = m_visited pf"
    and "size (items (m_queue (relaxed P gm e i pf))) \<le> size (items (m_queue pf)) + 1"
  using assms
  by (simp_all add: relaxed_def improve_def pq_push_heap pq_push_items)

lemma explored_frame:
  assumes "pq_contract P heap items" and "heap (m_queue pf)"
  shows "heap (m_queue (explored P gm e pf))"
    and "m_visited (explored P gm e pf) = m_visited pf"
    and "size (items (m_queue (explored P gm e pf))) \<le> size (items (m_queue pf)) + 4"
proof -
  note f0 = relaxed_frame [OF assms, of gm e 0]
  note f1 = relaxed_frame [OF assms(1) f0(1), of gm e 1]
  note f2 = relaxed_frame [OF assms(1) f1(1), of gm e 2]
  note f3 = relaxed_frame [OF assms(1) f2(1), of gm e 3]
  show "heap (m_queue (explored P gm e pf))" using f3(1) by (simp add: explored_def)
  show "m_visited (explored P gm e pf) = m_visited pf"
    using f0(2) f1(2) f2(2) f3(2) by (simp add: explored_def)
  show "size (items (m_queue (explored P gm e pf))) \<le> size (items (m_queue pf)) + 4"
    using f0(3) f1(3) f2(3) f3(3) by (simp add: explored_def)
qed

lemma remaining_popped:
  assumes "pq_contract P heap items" and "heap (m_queue pf)" and "items (m_queue pf) \<noteq> {#}"
  shows "remaining items (popped P pf) < remaining items pf"
proof -
  have "size (items (m_queue pf) - {#pq_top P (m_queue pf)#}) < size (items (m_queue pf))"
    using pq_top_in [OF assms] by (simp add: size_Diff1_less)
  then show ?thesis
    by (simp add: remaining_def popped_def pq_pop_items [OF assms])
qed

lemma remaining_explored:
  assumes "pq_contract P heap items" and "heap (m_queue pf)" and "items (m_queue pf) \<noteq> {#}"
    and "\<not> m_visited pf (node_pos (pq_top P (m_queue pf)))"
  shows "remaining items (explored P gm e (visit P pf)) < remaining items pf"
proof -
  let ?u = "node_pos (pq_top P (m_queue pf))"
  have hv: "heap (m_queue (visit P pf))"
    using pq_pop_heap [OF assms(1,2,3)] by (simp add: visit_def)
  have "size (items (m_queue (visit P pf))) < size (items (m_queue pf))"
    using pq_top_in [OF assms(1,2,3)]
    by (simp add: visit_def pq_pop_items [OF assms(1,2,3)] size_Diff1_less)
  then have q: "size (items (m_queue (explored P gm e (visit P pf)))) < size (items (m_queue pf)) + 4"
    using explored_frame(3) [OF assms(1) hv, of gm e] by linarith
  have eq: "{p. \<not> m_visited (visit P pf) p} = {p. \<not> m_visited pf p} - {?u}"
    by (auto simp: visit_def)
  have "?u \<in> {p. \<not> m_visited pf p}" using assms(4) by simp
  then have "card ({p. \<not> m_visited pf p} - {?u}) < card {p. \<not> m_visited pf p}"
    by (rule card_Diff1_less [OF finite])
  then have "card {p. \<not> m_visited (visit P pf) p} < card {p. \<not> m_visited pf p}"
    unfolding eq .
  then have "card {p. \<not> m_visited (explored P gm e (visit P pf)) p} < card {p. \<not> m_visited pf p}"
    by (simp add: explored_frame(2) [OF assms(1) hv])
  then show ?thesis using q by (simp add: remaining_def)
qed

text \<open>The rule for the loop: an invariant \<open>I\<close> that makes the queue a heap, is kept by
  discarding a visited node and by expanding an unvisited one, and establishes \<open>Q\<close> of the
  result at both returns, gives a result with \<open>Q\<close>. The loop ends because each turn either
  removes a node from the queue or visits a new coordinate and adds at most four nodes.\<close>

lemma search_loop_rule:
  assumes c: "pq_contract P heap items"
    and I0: "I pf0"
    and Iheap: "\<And>pf. I pf \<Longrightarrow> heap (m_queue pf)"
    and skip: "\<And>pf. I pf \<Longrightarrow> items (m_queue pf) \<noteq> {#} \<Longrightarrow>
        m_visited pf (node_pos (pq_top P (m_queue pf))) \<Longrightarrow> I (popped P pf)"
    and expand: "\<And>pf. I pf \<Longrightarrow> items (m_queue pf) \<noteq> {#} \<Longrightarrow>
        \<not> m_visited pf (node_pos (pq_top P (m_queue pf))) \<Longrightarrow>
        node_pos (pq_top P (m_queue pf)) \<noteq> goal \<Longrightarrow>
        I (explored P gm (pq_top P (m_queue pf)) (visit P pf))"
    and found: "\<And>pf. I pf \<Longrightarrow> items (m_queue pf) \<noteq> {#} \<Longrightarrow>
        \<not> m_visited pf (node_pos (pq_top P (m_queue pf))) \<Longrightarrow>
        node_pos (pq_top P (m_queue pf)) = goal \<Longrightarrow>
        \<exists>p. reconstructPath (visit P pf) goal = Some p \<and>
            Q \<lparr>path = p, totalCost = m_costGrid (visit P pf) goal\<rparr>"
    and exhausted: "\<And>pf. I pf \<Longrightarrow> items (m_queue pf) = {#} \<Longrightarrow>
        Q \<lparr>path = [], totalCost = Fin (- 1)\<rparr>"
  shows "\<exists>r pf'. search_loop P gm goal pf0 = Some (Inr (r, pf')) \<and> Q r"
  using I0
proof (induction "remaining items pf0" arbitrary: pf0 rule: less_induct)
  case less
  note h = Iheap [OF less.prems]
  show ?case
  proof (cases "items (m_queue pf0) = {#}")
    case True
    then have "pq_empty P (m_queue pf0)" using pq_empty_iff [OF c h] by simp
    then show ?thesis using exhausted [OF less.prems True] by (simp add: search_loop_empty)
  next
    case False
    then have ne: "\<not> pq_empty P (m_queue pf0)" using pq_empty_iff [OF c h] by simp
    show ?thesis
    proof (cases "m_visited pf0 (node_pos (pq_top P (m_queue pf0)))")
      case True
      have "\<exists>r pf'. search_loop P gm goal (popped P pf0) = Some (Inr (r, pf')) \<and> Q r"
        by (rule less.hyps [OF remaining_popped [OF c h False] skip [OF less.prems False True]])
      then show ?thesis by (simp add: search_loop_skip [OF ne True])
    next
      case nv: False
      show ?thesis
      proof (cases "node_pos (pq_top P (m_queue pf0)) = goal")
        case True
        from found [OF less.prems False nv True] show ?thesis
          by (auto simp: search_loop_found [OF ne nv True])
      next
        case ng: False
        have "\<exists>r pf'. search_loop P gm goal (explored P gm (pq_top P (m_queue pf0)) (visit P pf0))
            = Some (Inr (r, pf')) \<and> Q r"
          by (rule less.hyps [OF remaining_explored [OF c h False nv]
                expand [OF less.prems False nv ng]])
        then show ?thesis by (simp add: search_loop_expand [OF ne nv ng])
      qed
    qed
  qed
qed

subsection \<open>Termination\<close>

lemma reconstruct_loop_total:
  assumes "descending cost prev"
  shows "\<exists>r. reconstruct_loop prev cur acc = Some r"
proof (induction "card {m. \<exists>cm c. cost m = Fin cm \<and> cost cur = Fin c \<and> cm < c}"
    arbitrary: cur acc rule: less_induct)
  case less
  show ?case
  proof (cases "fst cur = 101")
    case True
    then show ?thesis by (subst reconstruct_loop.simps) simp
  next
    case False
    show ?thesis
    proof (cases "fst (prev cur) = 101")
      case True
      have "reconstruct_loop prev (prev cur) (acc @ [cur]) = Some (acc @ [cur])"
        using True by (subst reconstruct_loop.simps) simp
      then show ?thesis using False by (subst reconstruct_loop.simps) simp
    next
      case nz: False
      then obtain cp cn where c: "cost (prev cur) = Fin cp" "cost cur = Fin cn" "cp < cn"
        using assms unfolding descending_def by blast
      have "prev cur \<in> {m. \<exists>cm c. cost m = Fin cm \<and> cost cur = Fin c \<and> cm < c}"
        and "prev cur \<notin> {m. \<exists>cm c. cost m = Fin cm \<and> cost (prev cur) = Fin c \<and> cm < c}"
        and "{m. \<exists>cm c. cost m = Fin cm \<and> cost (prev cur) = Fin c \<and> cm < c}
          \<subseteq> {m. \<exists>cm c. cost m = Fin cm \<and> cost cur = Fin c \<and> cm < c}"
        using c by auto
      then have "{m. \<exists>cm c. cost m = Fin cm \<and> cost (prev cur) = Fin c \<and> cm < c}
          \<subset> {m. \<exists>cm c. cost m = Fin cm \<and> cost cur = Fin c \<and> cm < c}"
        by blast
      then have "card {m. \<exists>cm c. cost m = Fin cm \<and> cost (prev cur) = Fin c \<and> cm < c}
          < card {m. \<exists>cm c. cost m = Fin cm \<and> cost cur = Fin c \<and> cm < c}"
        by (rule psubset_card_mono [OF finite])
      from less.hyps [OF this]
      obtain r where "reconstruct_loop prev (prev cur) (acc @ [cur]) = Some r" by blast
      then show ?thesis using False by (subst reconstruct_loop.simps) simp
    qed
  qed
qed

lemma reconstructPath_total:
  "descending (m_costGrid pf) (m_previous pf) \<Longrightarrow> \<exists>p. reconstructPath pf goal = Some p"
  using reconstruct_loop_total [of "m_costGrid pf" "m_previous pf" goal "[]"]
  by (auto simp: reconstructPath_def)

lemma node_pos_make [simp]:
  "node_pos \<lparr>node_row = r, node_col = c, node_g = a, node_f = b\<rparr> = (r, c)"
  by (simp add: node_pos_def)

lemma step_cost_pos: "cell gm x \<noteq> Wall \<Longrightarrow> 1 / 2 \<le> step_cost gm x"
  unfolding step_cost_def by (rule getCost_pos)

lemma improve_A:
  assumes c: "pq_contract P heap items" and inv: "inv_A heap items pf"
    and e: "settled pf e" and imp: "improves gm e i pf"
  shows "inv_A heap items (improve P gm e (nbr_pos (node_pos e) i) pf)"
    and "settled (improve P gm e (nbr_pos (node_pos e) i) pf) e"
proof -
  let ?x = "nbr_pos (node_pos e) i"
  let ?nc = "node_g e + step_cost gm ?x"
  let ?pf = "improve P gm e ?x pf"
  have h: "heap (m_queue pf)"
    and q: "\<And>m. m \<in># items (m_queue pf) \<Longrightarrow> settled pf m"
    and d: "descending (m_costGrid pf) (m_previous pf)"
    using inv by (auto simp: inv_A_def)
  obtain ce where ce: "m_costGrid pf (node_pos e) = Fin ce" "ce \<le> node_g e"
    using e by (auto simp: settled_def)
  have "cell gm ?x \<noteq> Wall" using imp by (simp add: improves_def)
  then have sc: "1 / 2 \<le> step_cost gm ?x" by (rule step_cost_pos)
  have less: "dbl_less ?nc (m_costGrid pf ?x)" using imp by (simp add: improves_def)
  have xe: "?x \<noteq> node_pos e"
  proof
    assume "?x = node_pos e"
    then have "dbl_less ?nc (Fin ce)" using less ce by simp
    then show False using ce(2) sc by (simp add: dbl_less_def)
  qed
  have cost': "m_costGrid ?pf = (m_costGrid pf)(?x := Fin ?nc)"
    and prev': "m_previous ?pf = (m_previous pf)(?x := node_pos e)"
    and items': "items (m_queue ?pf) = add_mset
      \<lparr>node_row = fst ?x, node_col = snd ?x, node_g = ?nc, node_f = ?nc + h_of gm ?x\<rparr>
      (items (m_queue pf))"
    and heap': "heap (m_queue ?pf)"
    by (simp_all add: improve_def pq_push_items [OF c h] pq_push_heap [OF c h])
  show se: "settled ?pf e"
    using ce xe by (simp add: settled_def cost')
  have old: "settled ?pf m" if mem: "m \<in># items (m_queue pf)" for m
  proof (cases "node_pos m = ?x")
    case True
    obtain cm where "m_costGrid pf (node_pos m) = Fin cm" "cm \<le> node_g m"
      using q [OF mem] by (auto simp: settled_def)
    then have "?nc \<le> node_g m" using less True by (simp add: dbl_less_def)
    then show ?thesis using True by (simp add: settled_def cost')
  next
    case False
    then show ?thesis using q [OF mem] by (simp add: settled_def cost')
  qed
  have new: "settled ?pf \<lparr>node_row = fst ?x, node_col = snd ?x, node_g = ?nc, node_f = ?nc + h_of gm ?x\<rparr>"
    by (simp add: settled_def cost')
  have desc: "descending (m_costGrid ?pf) (m_previous ?pf)"
    unfolding descending_def cost' prev'
  proof (intro allI impI)
    fix n
    assume a: "fst (((m_previous pf)(?x := node_pos e)) n) \<noteq> 101"
    show "\<exists>cp cn. ((m_costGrid pf)(?x := Fin ?nc)) (((m_previous pf)(?x := node_pos e)) n) = Fin cp \<and>
        ((m_costGrid pf)(?x := Fin ?nc)) n = Fin cn \<and> cp < cn"
    proof (cases "n = ?x")
      case True
      then show ?thesis using ce xe sc by simp
    next
      case False
      then have "fst (m_previous pf n) \<noteq> 101" using a by simp
      then obtain cp cn where o: "m_costGrid pf (m_previous pf n) = Fin cp"
        "m_costGrid pf n = Fin cn" "cp < cn"
        using d unfolding descending_def by blast
      show ?thesis
      proof (cases "m_previous pf n = ?x")
        case True
        then have "?nc < cp" using less o(1) by (simp add: dbl_less_def)
        then show ?thesis using False True o by simp
      next
        case np: False
        then show ?thesis using False o by simp
      qed
    qed
  qed
  show "inv_A heap items ?pf"
    unfolding inv_A_def using heap' desc old new by (auto simp: items')
qed

lemma relaxed_A:
  assumes "pq_contract P heap items" and "inv_A heap items pf" and "settled pf e"
  shows "inv_A heap items (relaxed P gm e i pf)" and "settled (relaxed P gm e i pf) e"
  using assms improve_A [OF assms] by (auto simp: relaxed_def)

lemma explored_A:
  assumes "pq_contract P heap items" and "inv_A heap items pf" and "settled pf e"
  shows "inv_A heap items (explored P gm e pf)"
proof -
  note r0 = relaxed_A [OF assms, of gm 0]
  note r1 = relaxed_A [OF assms(1) r0, of gm 1]
  note r2 = relaxed_A [OF assms(1) r1, of gm 2]
  note r3 = relaxed_A [OF assms(1) r2, of gm 3]
  show ?thesis using r3(1) by (simp add: explored_def)
qed

lemma popped_A:
  assumes c: "pq_contract P heap items" and inv: "inv_A heap items pf"
    and ne: "items (m_queue pf) \<noteq> {#}"
  shows "inv_A heap items (popped P pf)"
proof -
  have h: "heap (m_queue pf)" using inv by (simp add: inv_A_def)
  have "m \<in># items (m_queue pf)" if "m \<in># items (m_queue pf) - {#pq_top P (m_queue pf)#}" for m
    using that by (rule in_diffD)
  then show ?thesis
    using inv pq_pop_heap [OF c h ne]
    by (auto simp: inv_A_def popped_def settled_def pq_pop_items [OF c h ne])
qed

lemma visit_A:
  assumes c: "pq_contract P heap items" and inv: "inv_A heap items pf"
    and ne: "items (m_queue pf) \<noteq> {#}"
  shows "inv_A heap items (visit P pf)" and "settled (visit P pf) (pq_top P (m_queue pf))"
    and "descending (m_costGrid (visit P pf)) (m_previous (visit P pf))"
proof -
  have h: "heap (m_queue pf)" using inv by (simp add: inv_A_def)
  have sub: "m \<in># items (m_queue pf)" if "m \<in># items (m_queue pf) - {#pq_top P (m_queue pf)#}" for m
    using that by (rule in_diffD)
  then show "inv_A heap items (visit P pf)"
    using inv pq_pop_heap [OF c h ne]
    by (auto simp: inv_A_def visit_def settled_def pq_pop_items [OF c h ne])
  show "settled (visit P pf) (pq_top P (m_queue pf))"
    using inv pq_top_in [OF c h ne] by (auto simp: inv_A_def visit_def settled_def)
  show "descending (m_costGrid (visit P pf)) (m_previous (visit P pf))"
    using inv by (simp add: inv_A_def visit_def)
qed

lemma search_loop_total:
  assumes c: "pq_contract P heap items" and inv: "inv_A heap items pf"
  shows "\<exists>r pf'. search_loop P gm goal pf = Some (Inr (r, pf'))"
proof -
  have "\<exists>r pf'. search_loop P gm goal pf = Some (Inr (r, pf')) \<and> True"
  proof (rule search_loop_rule [OF c, where I = "inv_A heap items" and Q = "\<lambda>_. True"])
    show "inv_A heap items pf" by (rule inv)
  next
    fix pf assume "inv_A heap items pf"
    then show "heap (m_queue pf)" by (simp add: inv_A_def)
  next
    fix pf assume "inv_A heap items pf" "items (m_queue pf) \<noteq> {#}"
    then show "inv_A heap items (popped P pf)" by (rule popped_A [OF c])
  next
    fix pf assume a: "inv_A heap items pf" "items (m_queue pf) \<noteq> {#}"
    show "inv_A heap items (explored P gm (pq_top P (m_queue pf)) (visit P pf))"
      by (rule explored_A [OF c visit_A(1,2) [OF c a]])
  next
    fix pf assume a: "inv_A heap items pf" "items (m_queue pf) \<noteq> {#}"
    show "\<exists>p. reconstructPath (visit P pf) goal = Some p \<and> True"
      using reconstructPath_total [OF visit_A(3) [OF c a]] by simp
  qed simp
  then show ?thesis by simp
qed

lemma initial_state:
  assumes c: "pq_contract P heap items" and h: "heap (m_queue pf)"
    and pf': "pf' = (initialize gm pf)
       \<lparr>m_costGrid := (m_costGrid (initialize gm pf))(s := Fin 0),
        m_queue := pq_push P \<lparr>node_row = fst s, node_col = snd s, node_g = 0, node_f = hs\<rparr>
          (m_queue (initialize gm pf))\<rparr>"
  shows "heap (m_queue pf')"
    and "items (m_queue pf') =
      add_mset \<lparr>node_row = fst s, node_col = snd s, node_g = 0, node_f = hs\<rparr> (items (m_queue pf))"
    and "m_costGrid pf' = (\<lambda>_. PosInf)(s := Fin 0)"
    and "m_visited pf' = (\<lambda>_. False)"
    and "m_previous pf' = (\<lambda>_. (101, 101))"
  using h by (simp_all add: pf' initialize_def pq_push_heap [OF c] pq_push_items [OF c])

text \<open>
  On a pathfinder just constructed, \<open>findPath\<close> returns, for every grid model and whatever
  queue meets the contract: no exception leaves it, the search loop ends (each turn removes
  a queue entry, or visits a coordinate not visited before and pushes at most four
  entries), and so does the loop of \<open>reconstructPath\<close> (every recorded parent has a
  strictly lower cost than its child).
\<close>

lemma findPath_fresh_terminates:
  assumes "pq_ok P"
  shows "\<exists>r. findPath_fresh P gm = Some (Inr r)"
proof -
  obtain heap items where c: "pq_contract P heap items"
    using assms unfolding pq_ok_def by blast
  show ?thesis
  proof (cases "fst (m_start gm) = 101 \<or> fst (m_goal gm) = 101")
    case True
    then show ?thesis
      by (simp add: findPath_fresh_def findPath_def Let_def startPosition_def goalPosition_def)
  next
    case False
    define pf' where "pf' = (initialize gm (Pathfinder_new P))
       \<lparr>m_costGrid := (m_costGrid (initialize gm (Pathfinder_new P)))(m_start gm := Fin 0),
        m_queue := pq_push P \<lparr>node_row = fst (m_start gm), node_col = snd (m_start gm), node_g = 0,
            node_f = heuristic gm (fst (m_start gm)) (snd (m_start gm))\<rparr>
          (m_queue (initialize gm (Pathfinder_new P)))\<rparr>"
    have h0: "heap (m_queue (Pathfinder_new P))"
      by (simp add: Pathfinder_new_def pq_new_heap [OF c])
    note i = initial_state [OF c h0 pf'_def]
    have "inv_A heap items pf'"
      unfolding inv_A_def i(2,3,5)
      using i(1) by (simp add: Pathfinder_new_def pq_new_items [OF c] settled_def i(3)
          node_pos_def descending_def)
    from search_loop_total [OF c this, of gm "m_goal gm"]
    obtain r pf'' where "search_loop P gm (m_goal gm) pf' = Some (Inr (r, pf''))" by blast
    moreover have "findPath P gm (Pathfinder_new P) = search_loop P gm (m_goal gm) pf'"
      using False unfolding pf'_def
      by (simp add: findPath_def Let_def startPosition_def goalPosition_def)
    ultimately show ?thesis by (simp add: findPath_fresh_def)
  qed
qed

lemma least_node_in: "least_node b ns \<in> set (b # ns)"
  by (induction ns arbitrary: b) auto

lemma least_node_le: "m \<in> set (b # ns) \<Longrightarrow> node_f (least_node b ns) \<le> node_f m"
proof (induction ns arbitrary: b m)
  case Nil
  then show ?case by simp
next
  case (Cons n ns)
  let ?b = "if node_f b > node_f n then n else b"
  have 1: "node_f (least_node ?b ns) \<le> node_f ?b"
    by (rule Cons.IH) simp
  have 2: "node_f (least_node ?b ns) \<le> node_f m" if "m \<in> set ns"
    by (rule Cons.IH) (use that in simp)
  show ?case using 1 2 Cons.prems by (auto split: if_splits)
qed

lemma list_pq_contract: "pq_contract list_pq (\<lambda>_. True) mset"
  unfolding pq_contract_def list_pq_def
proof (simp, intro allI impI conjI ballI)
  fix q :: "Node list" assume "q \<noteq> []"
  then obtain b ns where q: "q = b # ns" by (cases q) auto
  show "least_node (hd q) (tl q) \<in> set q" using least_node_in [of b ns] by (simp add: q)
  show "\<not> node_f m < node_f (least_node (hd q) (tl q))" if "m \<in> set q" for m
    using least_node_le [of m b ns] that by (simp add: q not_less)
qed

lemma list_pq_ok: "pq_ok list_pq"
  unfolding pq_ok_def using list_pq_contract by blast

lemma findPath_fresh_terminates_example:
  "pq_ok list_pq \<and>
   findPath_fresh list_pq (setCells (GridModel_new 3 3) [(0, 0, Start), (2, 2, Goal), (1, 1, Boost)]) =
     Some (Inr \<lparr>path = [(0, 0), (1, 0), (1, 1), (2, 1), (2, 2)], totalCost = Fin (7 / 2)\<rparr>)"
proof -
  have "findPath_fresh list_pq (setCells (GridModel_new 3 3) [(0, 0, Start), (2, 2, Goal), (1, 1, Boost)]) =
     Some (Inr \<lparr>path = [(0, 0), (1, 0), (1, 1), (2, 1), (2, 2)], totalCost = Fin (7 / 2)\<rparr>)"
    by code_simp
  then show ?thesis
    using findPath_fresh_terminates [OF list_pq_ok,
        of "setCells (GridModel_new 3 3) [(0, 0, Start), (2, 2, Goal), (1, 1, Boost)]"] list_pq_ok
    by blast
qed

subsection \<open>A second call on the same pathfinder\<close>

text \<open>When two coordinates outside row \<open>101\<close> are each other's parent, the loop of
  \<open>reconstructPath\<close> started at one of them does not return.\<close>

lemma reconstruct_loop_cycle:
  assumes "fst cur \<noteq> 101" and "fst (prev cur) \<noteq> 101" and "prev (prev cur) = cur"
  shows "reconstruct_loop prev cur acc = None"
proof (rule ccontr)
  assume "reconstruct_loop prev cur acc \<noteq> None"
  then obtain y where y: "reconstruct_loop prev cur acc = Some y" by auto
  have "\<not> (fst cur \<noteq> 101 \<and> fst (prev cur) \<noteq> 101 \<and> prev (prev cur) = cur)"
  proof (rule reconstruct_loop.raw_induct
      [where P = "\<lambda>prev cur acc y. \<not> (fst cur \<noteq> 101 \<and> fst (prev cur) \<noteq> 101 \<and> prev (prev cur) = cur)",
        OF _ y])
    fix f :: "(pos \<Rightarrow> pos) \<Rightarrow> pos \<Rightarrow> pos list \<Rightarrow> pos list option"
      and prev current acc y
    assume IH: "\<And>prev cur acc y. f prev cur acc = Some y \<Longrightarrow>
        \<not> (fst cur \<noteq> 101 \<and> fst (prev cur) \<noteq> 101 \<and> prev (prev cur) = cur)"
      and body: "(if fst current \<noteq> 101 then f prev (prev current) (acc @ [current])
                  else Some acc) = Some y"
    show "\<not> (fst current \<noteq> 101 \<and> fst (prev current) \<noteq> 101 \<and> prev (prev current) = current)"
    proof
      assume a: "fst current \<noteq> 101 \<and> fst (prev current) \<noteq> 101 \<and> prev (prev current) = current"
      then have a1: "fst current \<noteq> 101" and a2: "fst (prev current) \<noteq> 101"
        and a3: "prev (prev current) = current" by blast+
      have "f prev (prev current) (acc @ [current]) = Some y" using body a1 by simp
      from IH [OF this]
      have n: "\<not> (fst (prev current) \<noteq> 101 \<and> fst (prev (prev current)) \<noteq> 101 \<and>
                 prev (prev (prev current)) = prev current)" .
      have "fst (prev (prev current)) \<noteq> 101" unfolding a3 by (rule a1)
      moreover have "prev (prev (prev current)) = prev current" unfolding a3 ..
      ultimately show False using n a2 by blast
    qed
  qed
  then show False using assms by simp
qed

text \<open>The equations that run one turn of the main loop on a concrete state.\<close>

lemmas turn = Let_def explore.simps relax_def dr_def dc_def rowCount_def colCount_def
  cellState_def validateCoordinates_def grid_read_def getCost_def dbl_less_def heuristic_def
  goalPosition_def word_le_nat_alt

text \<open>
  A call on the \<open>1 x 10\<close> grid with the goal at \<open>(0, 2)\<close> and the start at \<open>(0, 9)\<close>, on a
  pathfinder whose queue holds the node \<open>(0, 0)\<close> with \<open>g = 1\<close> and \<open>f = 2\<close>, whatever its
  tables hold. The start is pushed with \<open>f = 3.5\<close>. The first turn pops \<open>(0, 0)\<close> and
  reaches \<open>(0, 1)\<close> from it, at the cost \<open>2\<close>. The second turn pops \<open>(0, 1)\<close>, with \<open>f = 2.5\<close>;
  the cost of \<open>(0, 0)\<close> is the infinity \<open>initialize\<close> wrote, so \<open>(0, 0)\<close> is reached from
  \<open>(0, 1)\<close>, and so is the goal, with \<open>f = 3\<close>. The third turn pops the goal, and
  \<open>reconstructPath\<close> goes from the goal to \<open>(0, 1)\<close>, to \<open>(0, 0)\<close>, to \<open>(0, 1)\<close> and so on.
\<close>

lemma stale_node_cycle:
  assumes q: "m_queue pf = [\<lparr>node_row = 0, node_col = 0, node_g = 1, node_f = 2\<rparr>]"
  shows "findPath list_pq \<lparr>m_rows = 1, m_cols = 10,
    m_grid = [[Normal, Normal, Goal, Normal, Normal, Normal, Normal, Normal, Normal, Start]],
    m_start = (0, 9), m_goal = (0, 2)\<rparr> pf = None"
  unfolding findPath_def
  apply (simp add: Let_def startPosition_def goalPosition_def initialize_def q heuristic_def list_pq_def)
  apply (subst search_loop.simps)
  apply (simp add: turn)
  apply (subst search_loop.simps)
  apply (simp add: turn)
  apply (subst search_loop.simps)
  apply (simp add: turn reconstructPath_def)
  apply (subst reconstruct_loop.simps)
  apply (simp add: reconstruct_loop_cycle)
  done

text \<open>
  C9 at a concrete input: not every call of \<open>findPath\<close> returns. \<open>initialize\<close> does not
  clear \<open>m_queue\<close>, so a node that one call left in the queue is popped by the next. On
  the \<open>1 x 10\<close> grid with the start at \<open>(0, 1)\<close> and the goal at \<open>(0, 2)\<close>, the first call on a
  pathfinder just constructed returns the path \<open>[(0, 1), (0, 2)]\<close> and leaves the node
  \<open>(0, 0)\<close> with \<open>g = 1\<close> in the queue. After the start is moved to \<open>(0, 9)\<close>, the second
  call on the same pathfinder makes \<open>(0, 0)\<close> and \<open>(0, 1)\<close> each other's parent, and the
  loop of \<open>reconstructPath\<close> never reaches a row \<open>101\<close>: the call does not return.
\<close>

theorem second_call_never_returns:
  "findPath_fresh list_pq (setCells (GridModel_new 1 10) [(0, 1, Start), (0, 2, Goal)]) =
     Some (Inr \<lparr>path = [(0, 1), (0, 2)], totalCost = Fin 1\<rparr>) \<and>
   findPath_twice list_pq
     (setCells (GridModel_new 1 10) [(0, 1, Start), (0, 2, Goal)])
     (setCells (setCells (GridModel_new 1 10) [(0, 1, Start), (0, 2, Goal)]) [(0, 9, Start)]) = None"
proof -
  define gm where "gm = setCells (GridModel_new 1 10) [(0, 1, Start), (0, 2, Goal)]"
  have "map_option (map_sum id (\<lambda>(r, pf). (r, m_queue pf))) (findPath list_pq gm (Pathfinder_new list_pq)) =
      Some (Inr (\<lparr>path = [(0, 1), (0, 2)], totalCost = Fin 1\<rparr>,
        [\<lparr>node_row = 0, node_col = 0, node_g = 1, node_f = 2\<rparr>]))"
    unfolding gm_def by code_simp
  then obtain pf where first: "findPath list_pq gm (Pathfinder_new list_pq) =
       Some (Inr (\<lparr>path = [(0, 1), (0, 2)], totalCost = Fin 1\<rparr>, pf))"
    and q: "m_queue pf = [\<lparr>node_row = 0, node_col = 0, node_g = 1, node_f = 2\<rparr>]"
    by (cases "findPath list_pq gm (Pathfinder_new list_pq)") (auto simp: map_sum_def split: sum.splits)
  have g: "setCells gm [(0, 9, Start)] = \<lparr>m_rows = 1, m_cols = 10,
      m_grid = [[Normal, Normal, Goal, Normal, Normal, Normal, Normal, Normal, Normal, Start]],
      m_start = (0, 9), m_goal = (0, 2)\<rparr>"
    unfolding gm_def by code_simp
  have "findPath list_pq (setCells gm [(0, 9, Start)]) pf = None"
    unfolding g by (rule stale_node_cycle [OF q])
  then have "findPath_twice list_pq gm (setCells gm [(0, 9, Start)]) = None"
    by (simp add: findPath_twice_def first)
  moreover have "findPath_fresh list_pq gm = Some (Inr \<lparr>path = [(0, 1), (0, 2)], totalCost = Fin 1\<rparr>)"
    by (simp add: findPath_fresh_def first)
  ultimately show ?thesis unfolding gm_def [symmetric] by simp
qed

subsection \<open>Walks\<close>

lemma walk_nonempty: "walk gm ps \<Longrightarrow> ps \<noteq> []"
  by (cases ps) auto

lemma walk_snoc:
  "ps \<noteq> [] \<Longrightarrow> walk gm (ps @ [x]) \<longleftrightarrow> walk gm ps \<and> adjacent (last ps) x \<and> in_bounds gm x"
proof (induction gm ps rule: walk.induct)
  case (1 gm)
  then show ?case by simp
next
  case (2 gm p)
  then show ?case by auto
next
  case (3 gm p q ps)
  then show ?case by auto
qed

lemma walk_last_in_bounds: "walk gm ps \<Longrightarrow> in_bounds gm (last ps)"
  by (induction gm ps rule: walk.induct) auto

lemma path_cost_single [simp]: "path_cost gm [p] = 0"
  by (simp add: path_cost_def)

lemma path_cost_snoc: "ps \<noteq> [] \<Longrightarrow> path_cost gm (ps @ [x]) = path_cost gm ps + step_cost gm x"
  by (cases ps) (simp_all add: path_cost_def)

lemma wall_free_single [simp]: "wall_free gm [p]"
  by (simp add: wall_free_def)

lemma wall_free_snoc:
  "ps \<noteq> [] \<Longrightarrow> wall_free gm (ps @ [x]) \<longleftrightarrow> wall_free gm ps \<and> cell gm x \<noteq> Wall"
  by (cases ps) (auto simp: wall_free_def)

lemma path_cost_nonneg: "wall_free gm ps \<Longrightarrow> 0 \<le> path_cost gm ps"
proof -
  assume w: "wall_free gm ps"
  have "0 \<le> step_cost gm p" if "p \<in> set (tl ps)" for p
  proof -
    have "cell gm p \<noteq> Wall" using w that by (auto simp: wall_free_def)
    from step_cost_pos [OF this] show ?thesis by linarith
  qed
  then show ?thesis unfolding path_cost_def by (intro sum_list_nonneg) auto
qed

lemma reached_start: "in_bounds gm (m_start gm) \<Longrightarrow> reached gm (m_start gm) 0"
  unfolding reached_def by (intro exI [of _ "[m_start gm]"]) simp

lemma reached_step:
  assumes "reached gm u c" and "adjacent u x" and "in_bounds gm x" and "cell gm x \<noteq> Wall"
  shows "reached gm x (c + step_cost gm x)"
proof -
  obtain ps where ps: "walk gm ps" "wall_free gm ps" "hd ps = m_start gm" "last ps = u"
    "path_cost gm ps = c"
    using assms(1) unfolding reached_def by blast
  have ne: "ps \<noteq> []" using ps(1) by (rule walk_nonempty)
  have "walk gm (ps @ [x])" using ps(1,4) assms(2,3) ne by (simp add: walk_snoc)
  moreover have "wall_free gm (ps @ [x])" using ps(2) assms(4) ne by (simp add: wall_free_snoc)
  moreover have "hd (ps @ [x]) = m_start gm" using ps(3) ne by simp
  moreover have "path_cost gm (ps @ [x]) = c + step_cost gm x"
    using ps(5) ne by (simp add: path_cost_snoc)
  ultimately show ?thesis unfolding reached_def by (intro exI [of _ "ps @ [x]"]) simp
qed

lemma reached_in_bounds: "reached gm p c \<Longrightarrow> in_bounds gm p"
  unfolding reached_def using walk_last_in_bounds by blast

lemma reached_nonneg: "reached gm p c \<Longrightarrow> 0 \<le> c"
  unfolding reached_def using path_cost_nonneg by blast

subsection \<open>The heuristic\<close>

lemma h_of_goal [simp]: "h_of gm (m_goal gm) = 0"
  by (simp add: h_of_def heuristic_def goalPosition_def)

lemma h_of_nonneg: "0 \<le> h_of gm p"
  by (simp add: h_of_def heuristic_def Let_def)

text \<open>The heuristic is consistent: one step changes it by at most \<open>0.5\<close>, the least step
  cost.\<close>

lemma h_of_adjacent: "adjacent p q \<Longrightarrow> h_of gm p \<le> h_of gm q + 1 / 2"
proof -
  assume adj: "adjacent p q"
  define a where "a = \<bar>uint (fst p) - uint (fst (m_goal gm))\<bar> + \<bar>uint (snd p) - uint (snd (m_goal gm))\<bar>"
  define b where "b = \<bar>uint (fst q) - uint (fst (m_goal gm))\<bar> + \<bar>uint (snd q) - uint (snd (m_goal gm))\<bar>"
  have "a \<le> b + 1" using adj unfolding adjacent_def a_def b_def by linarith
  then have "real_of_int a \<le> real_of_int b + 1" by linarith
  moreover have "h_of gm p = real_of_int a * 0.5" "h_of gm q = real_of_int b * 0.5"
    by (simp_all add: h_of_def heuristic_def Let_def goalPosition_def a_def b_def)
  ultimately show ?thesis by simp
qed

lemma h_of_step: "adjacent p q \<Longrightarrow> cell gm q \<noteq> Wall \<Longrightarrow> h_of gm p \<le> step_cost gm q + h_of gm q"
  using h_of_adjacent [of p q gm] step_cost_pos [of gm q] by linarith

subsection \<open>The invariant is kept\<close>

lemma improve_C:
  assumes c: "pq_contract P heap items"
    and inv: "inv_C gm heap items pf (Some (node_pos e))"
    and cur: "K_current gm pf e"
    and imp: "improves gm e i pf" and i: "i < 4"
  shows "inv_C gm heap items (improve P gm e (nbr_pos (node_pos e) i) pf) (Some (node_pos e))"
    and "K_current gm (improve P gm e (nbr_pos (node_pos e) i) pf) e"
proof -
  let ?u = "node_pos e"
  let ?x = "nbr_pos ?u i"
  let ?nc = "node_g e + step_cost gm ?x"
  let ?n = "\<lparr>node_row = fst ?x, node_col = snd ?x, node_g = ?nc, node_f = ?nc + h_of gm ?x\<rparr>"
  let ?pf = "improve P gm e ?x pf"
  have h: "heap (m_queue pf)"
    and KE: "K_entries gm items pf" and KF: "K_frontier gm items pf" and KM: "K_mono gm items pf"
    and KV: "K_visited pf" and KR: "K_real gm pf" and KS: "m_costGrid pf (m_start gm) = Fin 0"
    and KG: "\<not> m_visited pf (m_goal gm)" and KD: "K_edges gm pf (Some ?u)"
    and KP: "K_parents gm pf"
    using inv by (simp_all add: inv_C_def)
  have vu: "m_visited pf ?u" and cu: "m_costGrid pf ?u = Fin (node_g e)"
    and M: "\<And>v cv. m_visited pf v \<Longrightarrow> m_costGrid pf v = Fin cv \<Longrightarrow>
        cv + h_of gm v \<le> node_g e + h_of gm ?u"
    using cur by (auto simp: K_current_def)
  have ok: "nbr_ok gm ?u i" and nw: "cell gm ?x \<noteq> Wall"
    and less: "dbl_less ?nc (m_costGrid pf ?x)"
    using imp by (simp_all add: improves_def)
  have xb: "in_bounds gm ?x" and adj: "adjacent ?u ?x"
    using nbr_sound(1,2) [OF ok i] by simp_all
  have sc: "1 / 2 \<le> step_cost gm ?x" using nw by (rule step_cost_pos)
  have hx: "h_of gm ?u \<le> step_cost gm ?x + h_of gm ?x" using adj nw by (rule h_of_step)
  note KF_rule = KF [unfolded K_frontier_def, rule_format]
  note KM_rule = KM [unfolded K_mono_def, rule_format]
  note KV_rule = KV [unfolded K_visited_def, rule_format]
  note KR_rule = KR [unfolded K_real_def, rule_format]
  note KD_rule = KD [unfolded K_edges_def, rule_format]
  note KP_rule = KP [unfolded K_parents_def, THEN conjunct2, rule_format]
  have ru: "reached gm ?u (node_g e)" using cu by (rule KR_rule)
  have g0: "0 \<le> node_g e" using ru by (rule reached_nonneg)
  have nvx: "\<not> m_visited pf ?x"
  proof
    assume v: "m_visited pf ?x"
    then obtain cx where cx: "m_costGrid pf ?x = Fin cx" using KV_rule by blast
    have "cx + h_of gm ?x \<le> node_g e + h_of gm ?u" using M [OF v cx] .
    moreover have "?nc < cx" using less cx by (simp add: dbl_less_def)
    ultimately show False using hx by linarith
  qed
  have xu: "?x \<noteq> ?u" using nvx vu by auto
  have xs: "?x \<noteq> m_start gm"
  proof
    assume "?x = m_start gm"
    then have "?nc < 0" using less KS by (simp add: dbl_less_def)
    then show False using g0 sc by linarith
  qed
  have cost': "m_costGrid ?pf = (m_costGrid pf)(?x := Fin ?nc)"
    and prev': "m_previous ?pf = (m_previous pf)(?x := ?u)"
    and vis': "m_visited ?pf = m_visited pf"
    and items': "items (m_queue ?pf) = add_mset ?n (items (m_queue pf))"
    and heap': "heap (m_queue ?pf)"
    by (simp_all add: improve_def pq_push_items [OF c h] pq_push_heap [OF c h])
  have cvis: "m_costGrid ?pf v = m_costGrid pf v" if "m_visited pf v" for v
    using that nvx by (auto simp: cost')
  have KE': "K_entries gm items ?pf"
    unfolding K_entries_def items'
  proof (intro ballI)
    fix m assume "m \<in># add_mset ?n (items (m_queue pf))"
    then consider "m = ?n" | "m \<in># items (m_queue pf)" by auto
    then show "in_bounds gm (node_pos m) \<and> node_f m = node_g m + h_of gm (node_pos m) \<and> settled ?pf m"
    proof cases
      case 1
      then show ?thesis using xb by (simp add: settled_def cost')
    next
      case 2
      then have o: "in_bounds gm (node_pos m)" "node_f m = node_g m + h_of gm (node_pos m)"
        "settled pf m"
        using KE by (auto simp: K_entries_def)
      have "settled ?pf m"
      proof (cases "node_pos m = ?x")
        case True
        obtain cm where "m_costGrid pf (node_pos m) = Fin cm" "cm \<le> node_g m"
          using o(3) by (auto simp: settled_def)
        then have "?nc \<le> node_g m" using less True by (simp add: dbl_less_def)
        then show ?thesis using True by (simp add: settled_def cost')
      next
        case False
        then show ?thesis using o(3) by (simp add: settled_def cost')
      qed
      then show ?thesis using o by simp
    qed
  qed
  have KF': "K_frontier gm items ?pf"
    unfolding K_frontier_def items' vis'
  proof (intro allI impI)
    fix p k assume a: "\<not> m_visited pf p \<and> m_costGrid ?pf p = Fin k"
    show "\<lparr>node_row = fst p, node_col = snd p, node_g = k, node_f = k + h_of gm p\<rparr>
        \<in># add_mset ?n (items (m_queue pf))"
    proof (cases "p = ?x")
      case True
      then show ?thesis using a by (simp add: cost')
    next
      case False
      then have "m_costGrid pf p = Fin k" using a by (simp add: cost')
      then have "\<lparr>node_row = fst p, node_col = snd p, node_g = k, node_f = k + h_of gm p\<rparr>
          \<in># items (m_queue pf)"
        using KF_rule [of p k] a by simp
      then show ?thesis by simp
    qed
  qed
  have KM': "K_mono gm items ?pf"
    unfolding K_mono_def items' vis'
  proof (intro allI impI)
    fix v k m
    assume a: "m_visited pf v \<and> m_costGrid ?pf v = Fin k \<and> m \<in># add_mset ?n (items (m_queue pf))"
    then have v: "m_visited pf v" by simp
    have k: "m_costGrid pf v = Fin k" using a cvis [OF v] by simp
    from a consider "m = ?n" | "m \<in># items (m_queue pf)" by auto
    then show "k + h_of gm v \<le> node_f m"
    proof cases
      case 1
      have "k + h_of gm v \<le> node_g e + h_of gm ?u" using M [OF v k] .
      then show ?thesis using hx 1 by simp
    next
      case 2
      then show ?thesis using KM_rule [of v k m] v k by simp
    qed
  qed
  have KV': "K_visited ?pf"
    unfolding K_visited_def vis'
  proof (intro allI impI)
    fix v assume v: "m_visited pf v"
    from KV_rule [OF v] cvis [OF v] show "\<exists>k. m_costGrid ?pf v = Fin k" by simp
  qed
  have KR': "K_real gm ?pf"
    unfolding K_real_def cost'
  proof (intro allI impI)
    fix p k assume a: "((m_costGrid pf)(?x := Fin ?nc)) p = Fin k"
    show "reached gm p k"
    proof (cases "p = ?x")
      case True
      then have "k = ?nc" using a by simp
      then show ?thesis using reached_step [OF ru adj xb nw] True by simp
    next
      case False
      then have "m_costGrid pf p = Fin k" using a by simp
      then show ?thesis by (rule KR_rule)
    qed
  qed
  have KS': "m_costGrid ?pf (m_start gm) = Fin 0" using KS xs by (simp add: cost')
  have KG': "\<not> m_visited ?pf (m_goal gm)" using KG by (simp add: vis')
  have KD': "K_edges gm ?pf (Some ?u)"
    unfolding K_edges_def vis'
  proof (intro allI impI)
    fix v w cv
    assume a: "m_visited pf v \<and> Some v \<noteq> Some ?u \<and> m_costGrid ?pf v = Fin cv \<and>
        in_bounds gm w \<and> adjacent v w \<and> cell gm w \<noteq> Wall"
    then have "m_visited pf v" by simp
    from cvis [OF this] a have cv: "m_costGrid pf v = Fin cv" by simp
    have "\<exists>cw. m_costGrid pf w = Fin cw \<and> cw \<le> cv + step_cost gm w"
      using KD_rule [of v cv w] a cv by simp
    then obtain cw where cw: "m_costGrid pf w = Fin cw" "cw \<le> cv + step_cost gm w"
      by blast
    show "\<exists>cw. m_costGrid ?pf w = Fin cw \<and> cw \<le> cv + step_cost gm w"
    proof (cases "w = ?x")
      case True
      then have "?nc < cw" using less cw(1) by (simp add: dbl_less_def)
      then show ?thesis using True cw(2) by (simp add: cost')
    next
      case False
      then show ?thesis using cw by (simp add: cost')
    qed
  qed
  have KP': "K_parents gm ?pf"
    unfolding K_parents_def vis'
  proof (rule conjI, goal_cases)
    case 1
    show "m_previous ?pf (m_start gm) = (101, 101)"
      using KP xs by (simp add: K_parents_def prev')
  next
    case 2
    show ?case
    proof (intro allI impI)
    fix n k assume a: "m_costGrid ?pf n = Fin k \<and> n \<noteq> m_start gm"
    show "m_visited pf (m_previous ?pf n) \<and> adjacent (m_previous ?pf n) n \<and> cell gm n \<noteq> Wall \<and>
        (\<exists>cp. m_costGrid ?pf (m_previous ?pf n) = Fin cp \<and> k = cp + step_cost gm n)"
    proof (cases "n = ?x")
      case True
      then have "k = ?nc" using a by (simp add: cost')
      then show ?thesis using True vu adj nw cu xu by (simp add: cost' prev')
    next
      case False
      then have "m_costGrid pf n = Fin k" using a by (simp add: cost')
      then have "m_costGrid pf n = Fin k \<and> n \<noteq> m_start gm" using a by simp
      from KP_rule [OF this]
      have o: "m_visited pf (m_previous pf n)" "adjacent (m_previous pf n) n" "cell gm n \<noteq> Wall"
        "\<exists>cp. m_costGrid pf (m_previous pf n) = Fin cp \<and> k = cp + step_cost gm n"
        by blast+
      have "m_costGrid ?pf (m_previous pf n) = m_costGrid pf (m_previous pf n)"
        using o(1) by (rule cvis)
      then show ?thesis using False o by (simp add: prev')
    qed
    qed
  qed
  show "inv_C gm heap items ?pf (Some ?u)"
    unfolding inv_C_def using heap' KE' KF' KM' KV' KR' KS' KG' KD' KP' by blast
  show "K_current gm ?pf e"
    unfolding K_current_def vis'
  proof (intro conjI allI impI)
    show "m_visited pf ?u" by (rule vu)
    show "m_costGrid ?pf ?u = Fin (node_g e)" using cu xu by (simp add: cost')
  next
    fix v cv assume a: "m_visited pf v \<and> m_costGrid ?pf v = Fin cv"
    then have v: "m_visited pf v" by simp
    from cvis [OF v] a have "m_costGrid pf v = Fin cv" by simp
    from M [OF v this] show "cv + h_of gm v \<le> node_g e + h_of gm ?u" .
  qed
qed

lemma relaxed_cost_le:
  assumes "m_costGrid pf p = Fin k"
  shows "\<exists>k'. m_costGrid (relaxed P gm e i pf) p = Fin k' \<and> k' \<le> k"
proof (cases "improves gm e i pf \<and> p = nbr_pos (node_pos e) i")
  case True
  then have "dbl_less (node_g e + step_cost gm p) (Fin k)"
    using assms by (simp add: improves_def)
  then show ?thesis using True by (simp add: relaxed_def improve_def dbl_less_def)
next
  case False
  then show ?thesis using assms by (auto simp: relaxed_def improve_def)
qed

lemma relaxed_edge_done:
  "edge_done gm (relaxed P gm e i pf) e i"
proof (cases "improves gm e i pf")
  case True
  then show ?thesis by (simp add: edge_done_def relaxed_def improve_def)
next
  case False
  then show ?thesis
    by (auto simp: edge_done_def relaxed_def improves_def dbl_less_def not_less split: dbl.splits)
qed

lemma relaxed_edge_kept:
  assumes "edge_done gm pf e j"
  shows "edge_done gm (relaxed P gm e i pf) e j"
  unfolding edge_done_def
proof (intro impI)
  assume a: "nbr_ok gm (node_pos e) j \<and> cell gm (nbr_pos (node_pos e) j) \<noteq> Wall"
  then obtain cw where cw: "m_costGrid pf (nbr_pos (node_pos e) j) = Fin cw"
    "cw \<le> node_g e + step_cost gm (nbr_pos (node_pos e) j)"
    using assms unfolding edge_done_def by blast
  from relaxed_cost_le [OF cw(1), of P gm e i] cw(2)
  show "\<exists>cw. m_costGrid (relaxed P gm e i pf) (nbr_pos (node_pos e) j) = Fin cw \<and>
      cw \<le> node_g e + step_cost gm (nbr_pos (node_pos e) j)"
    by force
qed

lemma relaxed_C:
  assumes "pq_contract P heap items"
    and "inv_C gm heap items pf (Some (node_pos e))" and "K_current gm pf e" and "i < 4"
  shows "inv_C gm heap items (relaxed P gm e i pf) (Some (node_pos e))"
    and "K_current gm (relaxed P gm e i pf) e"
  using assms improve_C [OF assms(1,2,3) _ assms(4)] by (auto simp: relaxed_def)

lemma explored_C:
  assumes c: "pq_contract P heap items"
    and inv: "inv_C gm heap items pf (Some (node_pos e))" and cur: "K_current gm pf e"
  shows "inv_C gm heap items (explored P gm e pf) None"
proof -
  let ?p0 = "relaxed P gm e 0 pf"
  let ?p1 = "relaxed P gm e 1 ?p0"
  let ?p2 = "relaxed P gm e 2 ?p1"
  let ?p3 = "relaxed P gm e 3 ?p2"
  note r0 = relaxed_C [OF c inv cur, of 0, simplified]
  note r1 = relaxed_C [OF c r0, of 1, simplified]
  note r2 = relaxed_C [OF c r1, of 2, simplified]
  note r3 = relaxed_C [OF c r2, of 3, simplified]
  have e: "explored P gm e pf = ?p3" by (simp add: explored_def)
  have d3: "edge_done gm ?p3 e 3" by (rule relaxed_edge_done)
  have d2: "edge_done gm ?p3 e 2" by (rule relaxed_edge_kept [OF relaxed_edge_done])
  have d1: "edge_done gm ?p3 e 1"
    by (rule relaxed_edge_kept [OF relaxed_edge_kept [OF relaxed_edge_done]])
  have d0: "edge_done gm ?p3 e 0"
    by (rule relaxed_edge_kept [OF relaxed_edge_kept [OF relaxed_edge_kept [OF relaxed_edge_done]]])
  have alld: "edge_done gm ?p3 e j" if "j < 4" for j
  proof -
    have "j = 0 \<or> j = 1 \<or> j = 2 \<or> j = 3" using that by arith
    then show ?thesis using d0 d1 d2 d3 by auto
  qed
  have cu: "m_costGrid ?p3 (node_pos e) = Fin (node_g e)"
    using r3(2) by (simp add: K_current_def)
  have KD: "K_edges gm ?p3 (Some (node_pos e))" using r3(1) by (simp add: inv_C_def)
  have "K_edges gm ?p3 None"
    unfolding K_edges_def
  proof (intro allI impI)
    fix v w cv
    assume a: "m_visited ?p3 v \<and> Some v \<noteq> None \<and> m_costGrid ?p3 v = Fin cv \<and>
        in_bounds gm w \<and> adjacent v w \<and> cell gm w \<noteq> Wall"
    show "\<exists>cw. m_costGrid ?p3 w = Fin cw \<and> cw \<le> cv + step_cost gm w"
    proof (cases "v = node_pos e")
      case True
      then have "cv = node_g e" using a cu by simp
      moreover obtain j where j: "j < 4" "nbr_ok gm (node_pos e) j" "nbr_pos (node_pos e) j = w"
        using nbr_complete [of gm w "node_pos e"] a True by auto
      ultimately show ?thesis using alld [OF j(1)] a j(2,3) by (simp add: edge_done_def)
    next
      case False
      then show ?thesis using KD [unfolded K_edges_def, rule_format, of v cv w] a by simp
    qed
  qed
  then show ?thesis using r3(1) by (simp add: inv_C_def e)
qed

text \<open>The node on top of the queue, when its coordinate is not visited, carries the
  recorded cost of that coordinate: every entry of the coordinate has the same \<open>h\<close>, so the
  least \<open>f\<close> is the least \<open>g\<close>.\<close>

lemma top_cost:
  assumes c: "pq_contract P heap items" and inv: "inv_C gm heap items pf None"
    and ne: "items (m_queue pf) \<noteq> {#}"
    and nv: "\<not> m_visited pf (node_pos (pq_top P (m_queue pf)))"
  shows "m_costGrid pf (node_pos (pq_top P (m_queue pf))) = Fin (node_g (pq_top P (m_queue pf)))"
proof -
  let ?e = "pq_top P (m_queue pf)"
  let ?u = "node_pos ?e"
  have h: "heap (m_queue pf)" and KE: "K_entries gm items pf" and KF: "K_frontier gm items pf"
    using inv by (simp_all add: inv_C_def)
  have ein: "?e \<in># items (m_queue pf)" by (rule pq_top_in [OF c h ne])
  then have f: "node_f ?e = node_g ?e + h_of gm ?u" and "settled pf ?e"
    using KE by (auto simp: K_entries_def)
  then obtain k where k: "m_costGrid pf ?u = Fin k" "k \<le> node_g ?e"
    by (auto simp: settled_def)
  have "\<lparr>node_row = fst ?u, node_col = snd ?u, node_g = k, node_f = k + h_of gm ?u\<rparr>
      \<in># items (m_queue pf)"
    using KF [unfolded K_frontier_def, rule_format, of ?u k] nv k(1) by simp
  from pq_top_least [OF c h this] have "node_f ?e \<le> k + h_of gm ?u" by simp
  then have "node_g ?e \<le> k" using f by simp
  then show ?thesis using k by simp
qed

lemma popped_C:
  assumes c: "pq_contract P heap items" and inv: "inv_C gm heap items pf None"
    and ne: "items (m_queue pf) \<noteq> {#}"
    and v: "m_visited pf (node_pos (pq_top P (m_queue pf)))"
  shows "inv_C gm heap items (popped P pf) None"
proof -
  let ?e = "pq_top P (m_queue pf)"
  let ?pf = "popped P pf"
  have h: "heap (m_queue pf)"
    and KE: "K_entries gm items pf" and KF: "K_frontier gm items pf" and KM: "K_mono gm items pf"
    and KV: "K_visited pf" and KR: "K_real gm pf" and KS: "m_costGrid pf (m_start gm) = Fin 0"
    and KG: "\<not> m_visited pf (m_goal gm)" and KD: "K_edges gm pf None"
    and KP: "K_parents gm pf"
    using inv by (simp_all add: inv_C_def)
  have items': "items (m_queue ?pf) = items (m_queue pf) - {#?e#}"
    and heap': "heap (m_queue ?pf)"
    and same: "m_costGrid ?pf = m_costGrid pf" "m_visited ?pf = m_visited pf"
      "m_previous ?pf = m_previous pf"
    by (simp_all add: popped_def pq_pop_items [OF c h ne] pq_pop_heap [OF c h ne])
  have sub: "m \<in># items (m_queue pf)" if "m \<in># items (m_queue pf) - {#?e#}" for m
    using that by (rule in_diffD)
  have KE': "K_entries gm items ?pf"
    using KE sub unfolding K_entries_def items' settled_def same by blast
  have KF': "K_frontier gm items ?pf"
    unfolding K_frontier_def items' same
  proof (intro allI impI)
    fix p k assume a: "\<not> m_visited pf p \<and> m_costGrid pf p = Fin k"
    let ?n = "\<lparr>node_row = fst p, node_col = snd p, node_g = k, node_f = k + h_of gm p\<rparr>"
    have "?n \<in># items (m_queue pf)" using KF [unfolded K_frontier_def, rule_format, of p k] a by simp
    moreover have "?n \<noteq> ?e"
    proof
      assume "?n = ?e"
      then have "node_pos ?e = node_pos ?n" by simp
      then show False using a v by simp
    qed
    ultimately show "?n \<in># items (m_queue pf) - {#?e#}" by (simp add: in_diff_count)
  qed
  have KM': "K_mono gm items ?pf"
    using KM sub unfolding K_mono_def items' same by blast
  show ?thesis
    unfolding inv_C_def using heap' KE' KF' KM' KV KR KS KG KD KP
    by (simp add: K_visited_def K_real_def K_edges_def K_parents_def same)
qed

lemma visit_C:
  assumes c: "pq_contract P heap items" and inv: "inv_C gm heap items pf None"
    and ne: "items (m_queue pf) \<noteq> {#}"
    and nv: "\<not> m_visited pf (node_pos (pq_top P (m_queue pf)))"
    and ng: "node_pos (pq_top P (m_queue pf)) \<noteq> m_goal gm"
  shows "inv_C gm heap items (visit P pf) (Some (node_pos (pq_top P (m_queue pf))))"
    and "K_current gm (visit P pf) (pq_top P (m_queue pf))"
proof -
  let ?e = "pq_top P (m_queue pf)"
  let ?u = "node_pos ?e"
  let ?pf = "visit P pf"
  have h: "heap (m_queue pf)"
    and KE: "K_entries gm items pf" and KF: "K_frontier gm items pf" and KM: "K_mono gm items pf"
    and KV: "K_visited pf" and KR: "K_real gm pf" and KS: "m_costGrid pf (m_start gm) = Fin 0"
    and KG: "\<not> m_visited pf (m_goal gm)" and KD: "K_edges gm pf None"
    and KP: "K_parents gm pf"
    using inv by (simp_all add: inv_C_def)
  have items': "items (m_queue ?pf) = items (m_queue pf) - {#?e#}"
    and heap': "heap (m_queue ?pf)"
    and same: "m_costGrid ?pf = m_costGrid pf" "m_previous ?pf = m_previous pf"
    and vis': "m_visited ?pf = (m_visited pf)(?u := True)"
    by (simp_all add: visit_def pq_pop_items [OF c h ne] pq_pop_heap [OF c h ne])
  have sub: "m \<in># items (m_queue pf)" if "m \<in># items (m_queue pf) - {#?e#}" for m
    using that by (rule in_diffD)
  have ein: "?e \<in># items (m_queue pf)" by (rule pq_top_in [OF c h ne])
  have cu: "m_costGrid pf ?u = Fin (node_g ?e)" by (rule top_cost [OF c inv ne nv])
  have fe: "node_f ?e = node_g ?e + h_of gm ?u"
    using KE ein by (auto simp: K_entries_def)
  have least: "node_g ?e + h_of gm ?u \<le> node_f m" if "m \<in># items (m_queue pf)" for m
    using pq_top_least [OF c h that] fe by simp
  have KE': "K_entries gm items ?pf"
    using KE sub unfolding K_entries_def items' settled_def same by blast
  have KF': "K_frontier gm items ?pf"
    unfolding K_frontier_def items' same vis'
  proof (intro allI impI)
    fix p k assume a: "\<not> ((m_visited pf)(?u := True)) p \<and> m_costGrid pf p = Fin k"
    let ?n = "\<lparr>node_row = fst p, node_col = snd p, node_g = k, node_f = k + h_of gm p\<rparr>"
    have pu: "p \<noteq> ?u" and "\<not> m_visited pf p" using a by (auto split: if_splits)
    then have "?n \<in># items (m_queue pf)"
      using KF [unfolded K_frontier_def, rule_format, of p k] a by simp
    moreover have "?n \<noteq> ?e"
    proof
      assume "?n = ?e"
      then have "node_pos ?e = node_pos ?n" by simp
      then show False using pu by simp
    qed
    ultimately show "?n \<in># items (m_queue pf) - {#?e#}" by (simp add: in_diff_count)
  qed
  have KM': "K_mono gm items ?pf"
    unfolding K_mono_def items' same vis'
  proof (intro allI impI)
    fix v k m
    assume a: "((m_visited pf)(?u := True)) v \<and> m_costGrid pf v = Fin k \<and>
        m \<in># items (m_queue pf) - {#?e#}"
    then have m: "m \<in># items (m_queue pf)" using sub by simp
    show "k + h_of gm v \<le> node_f m"
    proof (cases "v = ?u")
      case True
      then have "k = node_g ?e" using a cu by simp
      then show ?thesis using least [OF m] True by simp
    next
      case False
      then show ?thesis using KM [unfolded K_mono_def, rule_format, of v k m] a m by simp
    qed
  qed
  have KV': "K_visited ?pf"
    unfolding K_visited_def same vis'
  proof (intro allI impI)
    fix v assume "((m_visited pf)(?u := True)) v"
    then show "\<exists>k. m_costGrid pf v = Fin k"
      using KV [unfolded K_visited_def, rule_format, of v] cu by (cases "v = ?u") auto
  qed
  have KG': "\<not> m_visited ?pf (m_goal gm)" using KG ng by (simp add: vis')
  have KD': "K_edges gm ?pf (Some ?u)"
    unfolding K_edges_def same vis'
  proof (intro allI impI)
    fix v w cv
    assume a: "((m_visited pf)(?u := True)) v \<and> Some v \<noteq> Some ?u \<and> m_costGrid pf v = Fin cv \<and>
        in_bounds gm w \<and> adjacent v w \<and> cell gm w \<noteq> Wall"
    then have "m_visited pf v" by (auto split: if_splits)
    then show "\<exists>cw. m_costGrid pf w = Fin cw \<and> cw \<le> cv + step_cost gm w"
      using KD [unfolded K_edges_def, rule_format, of v cv w] a by simp
  qed
  have KP': "K_parents gm ?pf"
    unfolding K_parents_def same vis'
  proof (rule conjI, goal_cases)
    case 1
    show ?case using KP by (simp add: K_parents_def)
  next
    case 2
    show ?case
    proof (intro allI impI)
      fix n k assume a: "m_costGrid pf n = Fin k \<and> n \<noteq> m_start gm"
      from KP [unfolded K_parents_def, THEN conjunct2, rule_format, OF this]
      show "((m_visited pf)(?u := True)) (m_previous pf n) \<and> adjacent (m_previous pf n) n \<and>
          cell gm n \<noteq> Wall \<and> (\<exists>cp. m_costGrid pf (m_previous pf n) = Fin cp \<and> k = cp + step_cost gm n)"
        by simp
    qed
  qed
  show "inv_C gm heap items ?pf (Some ?u)"
    unfolding inv_C_def using heap' KE' KF' KM' KV' KR KS KG' KD' KP'
    by (simp add: K_real_def same)
  show "K_current gm ?pf ?e"
    unfolding K_current_def same vis'
  proof (intro conjI allI impI)
    show "((m_visited pf)(?u := True)) ?u" by simp
    show "m_costGrid pf ?u = Fin (node_g ?e)" by (rule cu)
  next
    fix v cv assume a: "((m_visited pf)(?u := True)) v \<and> m_costGrid pf v = Fin cv"
    show "cv + h_of gm v \<le> node_g ?e + h_of gm ?u"
    proof (cases "v = ?u")
      case True
      then show ?thesis using a cu by simp
    next
      case False
      then have "cv + h_of gm v \<le> node_f ?e"
        using KM [unfolded K_mono_def, rule_format, of v cv ?e] a ein by simp
      then show ?thesis using fe by simp
    qed
  qed
qed

lemma init_C:
  assumes c: "pq_contract P heap items" and h: "heap (m_queue pf)" and e: "items (m_queue pf) = {#}"
    and sb: "in_bounds gm (m_start gm)"
    and pf': "pf' = (initialize gm pf)
       \<lparr>m_costGrid := (m_costGrid (initialize gm pf))(m_start gm := Fin 0),
        m_queue := pq_push P \<lparr>node_row = fst (m_start gm), node_col = snd (m_start gm), node_g = 0,
            node_f = heuristic gm (fst (m_start gm)) (snd (m_start gm))\<rparr>
          (m_queue (initialize gm pf))\<rparr>"
  shows "inv_C gm heap items pf' None"
proof -
  let ?s = "m_start gm"
  let ?n = "\<lparr>node_row = fst ?s, node_col = snd ?s, node_g = 0, node_f = heuristic gm (fst ?s) (snd ?s)\<rparr>"
  note i = initial_state [OF c h pf']
  have items': "items (m_queue pf') = {#?n#}" using i(2) e by simp
  have cost: "m_costGrid pf' p = Fin k \<longleftrightarrow> p = ?s \<and> k = 0" for p k
    by (auto simp: i(3))
  have "K_entries gm items pf'"
    unfolding K_entries_def items' using sb by (simp add: settled_def i(3) h_of_def)
  moreover have "K_frontier gm items pf'"
    unfolding K_frontier_def items' cost by (auto simp: h_of_def)
  moreover have "K_mono gm items pf'" unfolding K_mono_def i(4) by simp
  moreover have "K_visited pf'" unfolding K_visited_def i(4) by simp
  moreover have "K_real gm pf'"
    unfolding K_real_def cost using reached_start [OF sb] by auto
  moreover have "K_edges gm pf' None" unfolding K_edges_def i(4) by simp
  moreover have "K_parents gm pf'" unfolding K_parents_def cost i(5) by auto
  ultimately show ?thesis
    unfolding inv_C_def using i(1) by (simp add: i(3,4))
qed

subsection \<open>No walk beats the search\<close>

lemma walk_bound:
  assumes inv: "inv_C gm heap items pf None"
    and "walk gm ps" and "wall_free gm ps" and "hd ps = m_start gm"
  shows "(m_visited pf (last ps) \<longrightarrow>
            (\<exists>k. m_costGrid pf (last ps) = Fin k \<and> k \<le> path_cost gm ps)) \<and>
         (\<not> m_visited pf (last ps) \<longrightarrow>
            (\<exists>x k. \<not> m_visited pf x \<and> m_costGrid pf x = Fin k \<and>
                   k + h_of gm x \<le> path_cost gm ps + h_of gm (last ps)))"
proof -
  have KF: "K_frontier gm items pf" and KM: "K_mono gm items pf"
    and KV: "K_visited pf" and KS: "m_costGrid pf (m_start gm) = Fin 0"
    and KD: "K_edges gm pf None"
    using inv by (simp_all add: inv_C_def)
  have ne: "ps \<noteq> []" using assms(2) by (rule walk_nonempty)
  from ne assms(2,3,4) show ?thesis
  proof (induction ps rule: rev_nonempty_induct)
    case (single p)
    then have p: "p = m_start gm" by simp
    have "\<not> m_visited pf p \<Longrightarrow> \<exists>x k. \<not> m_visited pf x \<and> m_costGrid pf x = Fin k \<and>
        k + h_of gm x \<le> path_cost gm [p] + h_of gm (last [p])"
      by (intro exI [of _ p] exI [of _ 0]) (simp add: p KS)
    then show ?case using KS p by simp
  next
    case (snoc x xs)
    let ?q = "last xs"
    have w: "walk gm xs" "adjacent ?q x" "in_bounds gm x"
      using snoc.prems(1) snoc.hyps(1) by (simp_all add: walk_snoc)
    have wf: "wall_free gm xs" "cell gm x \<noteq> Wall"
      using snoc.prems(2) snoc.hyps(1) by (simp_all add: wall_free_snoc)
    have hd: "hd xs = m_start gm" using snoc.prems(3) snoc.hyps(1) by simp
    have pc: "path_cost gm (xs @ [x]) = path_cost gm xs + step_cost gm x"
      using snoc.hyps(1) by (rule path_cost_snoc)
    note IH = snoc.IH [OF w(1) wf(1) hd]
    have hq: "h_of gm ?q \<le> step_cost gm x + h_of gm x" using w(2) wf(2) by (rule h_of_step)
    have goal1: "\<exists>k. m_costGrid pf x = Fin k \<and> k \<le> path_cost gm (xs @ [x])" if vx: "m_visited pf x"
    proof (cases "m_visited pf ?q")
      case True
      then obtain kq where kq: "m_costGrid pf ?q = Fin kq" "kq \<le> path_cost gm xs"
        using IH by blast
      from KD [unfolded K_edges_def, rule_format, of ?q kq x] True kq(1) w wf(2)
      obtain cw where "m_costGrid pf x = Fin cw" "cw \<le> kq + step_cost gm x" by auto
      then show ?thesis using kq(2) pc by auto
    next
      case False
      then obtain y k where y: "\<not> m_visited pf y" "m_costGrid pf y = Fin k"
        "k + h_of gm y \<le> path_cost gm xs + h_of gm ?q"
        using IH by blast
      obtain kx where kx: "m_costGrid pf x = Fin kx"
        using KV [unfolded K_visited_def, rule_format, OF vx] by blast
      have "\<lparr>node_row = fst y, node_col = snd y, node_g = k, node_f = k + h_of gm y\<rparr>
          \<in># items (m_queue pf)"
        using KF [unfolded K_frontier_def, rule_format, of y k] y(1,2) by simp
      from KM [unfolded K_mono_def, rule_format, of x kx, OF conjI [OF vx conjI [OF kx this]]]
      have "kx + h_of gm x \<le> k + h_of gm y" by simp
      then have "kx \<le> path_cost gm (xs @ [x])" using y(3) hq pc by linarith
      then show ?thesis using kx by simp
    qed
    have goal2: "\<exists>y k. \<not> m_visited pf y \<and> m_costGrid pf y = Fin k \<and>
        k + h_of gm y \<le> path_cost gm (xs @ [x]) + h_of gm x" if nvx: "\<not> m_visited pf x"
    proof (cases "m_visited pf ?q")
      case True
      then obtain kq where kq: "m_costGrid pf ?q = Fin kq" "kq \<le> path_cost gm xs"
        using IH by blast
      from KD [unfolded K_edges_def, rule_format, of ?q kq x] True kq(1) w wf(2)
      obtain cw where cw: "m_costGrid pf x = Fin cw" "cw \<le> kq + step_cost gm x" by auto
      then have "cw + h_of gm x \<le> path_cost gm (xs @ [x]) + h_of gm x" using kq(2) pc by simp
      then show ?thesis using nvx cw(1) by blast
    next
      case False
      then obtain y k where y: "\<not> m_visited pf y" "m_costGrid pf y = Fin k"
        "k + h_of gm y \<le> path_cost gm xs + h_of gm ?q"
        using IH by blast
      have "k + h_of gm y \<le> path_cost gm (xs @ [x]) + h_of gm x" using y(3) hq pc by linarith
      then show ?thesis using y(1,2) by blast
    qed
    show ?case using goal1 goal2 by simp
  qed
qed

text \<open>When the goal is on top of the queue and not visited, its node carries the least
  cost of any wall-free walk from the start to the goal.\<close>

lemma found_optimal:
  assumes c: "pq_contract P heap items" and inv: "inv_C gm heap items pf None"
    and ne: "items (m_queue pf) \<noteq> {#}"
    and nv: "\<not> m_visited pf (node_pos (pq_top P (m_queue pf)))"
    and g: "node_pos (pq_top P (m_queue pf)) = m_goal gm"
  shows "m_costGrid pf (m_goal gm) = Fin (node_g (pq_top P (m_queue pf)))"
    and "reached gm (m_goal gm) (node_g (pq_top P (m_queue pf)))"
    and "\<And>ps. route gm ps \<Longrightarrow> wall_free gm ps \<Longrightarrow> node_g (pq_top P (m_queue pf)) \<le> path_cost gm ps"
proof -
  let ?e = "pq_top P (m_queue pf)"
  have h: "heap (m_queue pf)" and KE: "K_entries gm items pf" and KF: "K_frontier gm items pf"
    and KR: "K_real gm pf"
    using inv by (simp_all add: inv_C_def)
  show cg: "m_costGrid pf (m_goal gm) = Fin (node_g ?e)"
    using top_cost [OF c inv ne nv] g by simp
  show "reached gm (m_goal gm) (node_g ?e)"
    using KR [unfolded K_real_def, rule_format, OF cg] .
  have ein: "?e \<in># items (m_queue pf)" by (rule pq_top_in [OF c h ne])
  then have fe: "node_f ?e = node_g ?e" using KE g by (auto simp: K_entries_def)
  fix ps assume r: "route gm ps" and w: "wall_free gm ps"
  then have "walk gm ps" "hd ps = m_start gm" and l: "last ps = m_goal gm"
    by (simp_all add: route_def)
  from walk_bound [OF inv this(1) w this(2)] nv g l
  obtain x k where x: "\<not> m_visited pf x" "m_costGrid pf x = Fin k"
    "k + h_of gm x \<le> path_cost gm ps" by auto
  have "\<lparr>node_row = fst x, node_col = snd x, node_g = k, node_f = k + h_of gm x\<rparr>
      \<in># items (m_queue pf)"
    using KF [unfolded K_frontier_def, rule_format, of x k] x(1,2) by simp
  from pq_top_least [OF c h this] have "node_f ?e \<le> k + h_of gm x" by simp
  then show "node_g ?e \<le> path_cost gm ps" using fe x(3) by linarith
qed

text \<open>When the queue is exhausted, no wall-free walk leads from the start to the goal.\<close>

lemma exhausted_unreachable:
  assumes inv: "inv_C gm heap items pf None" and e: "items (m_queue pf) = {#}"
  shows "\<not> (\<exists>ps. route gm ps \<and> wall_free gm ps)"
proof
  assume "\<exists>ps. route gm ps \<and> wall_free gm ps"
  then obtain ps where "walk gm ps" "hd ps = m_start gm" and l: "last ps = m_goal gm"
    and w: "wall_free gm ps"
    by (auto simp: route_def)
  have KF: "K_frontier gm items pf" and KG: "\<not> m_visited pf (m_goal gm)"
    using inv by (simp_all add: inv_C_def)
  from walk_bound [OF inv \<open>walk gm ps\<close> w \<open>hd ps = m_start gm\<close>] KG l
  obtain x k where x: "\<not> m_visited pf x" "m_costGrid pf x = Fin k" by auto
  have "\<lparr>node_row = fst x, node_col = snd x, node_g = k, node_f = k + h_of gm x\<rparr>
      \<in># items (m_queue pf)"
    using KF [unfolded K_frontier_def, rule_format, of x k] x by simp
  then show False using e by simp
qed

subsection \<open>The reconstructed path\<close>

lemma reconstruct_loop_stop: "fst cur = 101 \<Longrightarrow> reconstruct_loop prev cur acc = Some acc"
  by (subst reconstruct_loop.simps) simp

lemma reconstruct_loop_step:
  "fst cur \<noteq> 101 \<Longrightarrow> reconstruct_loop prev cur acc = reconstruct_loop prev (prev cur) (acc @ [cur])"
  by (subst reconstruct_loop.simps) simp

text \<open>Whatever the loop returns starts with what it was given, then the coordinate it was
  started at.\<close>

lemma reconstruct_loop_shape:
  assumes "descending cost prev" and "fst cur \<noteq> 101"
  shows "\<exists>ys. reconstruct_loop prev cur acc = Some (acc @ cur # ys)"
  using assms(2)
proof (induction "card {m. \<exists>cm c. cost m = Fin cm \<and> cost cur = Fin c \<and> cm < c}"
    arbitrary: cur acc rule: less_induct)
  case less
  show ?case
  proof (cases "fst (prev cur) = 101")
    case True
    then show ?thesis
      using less.prems by (simp add: reconstruct_loop_step reconstruct_loop_stop)
  next
    case nz: False
    then obtain cp cn where c: "cost (prev cur) = Fin cp" "cost cur = Fin cn" "cp < cn"
      using assms(1) unfolding descending_def by blast
    have "prev cur \<in> {m. \<exists>cm c. cost m = Fin cm \<and> cost cur = Fin c \<and> cm < c}"
      and "prev cur \<notin> {m. \<exists>cm c. cost m = Fin cm \<and> cost (prev cur) = Fin c \<and> cm < c}"
      and "{m. \<exists>cm c. cost m = Fin cm \<and> cost (prev cur) = Fin c \<and> cm < c}
        \<subseteq> {m. \<exists>cm c. cost m = Fin cm \<and> cost cur = Fin c \<and> cm < c}"
      using c by auto
    then have "{m. \<exists>cm c. cost m = Fin cm \<and> cost (prev cur) = Fin c \<and> cm < c}
        \<subset> {m. \<exists>cm c. cost m = Fin cm \<and> cost cur = Fin c \<and> cm < c}"
      by blast
    then have "card {m. \<exists>cm c. cost m = Fin cm \<and> cost (prev cur) = Fin c \<and> cm < c}
        < card {m. \<exists>cm c. cost m = Fin cm \<and> cost cur = Fin c \<and> cm < c}"
      by (rule psubset_card_mono [OF finite])
    from less.hyps [OF this nz, of "acc @ [cur]"]
    show ?thesis using less.prems by (auto simp: reconstruct_loop_step)
  qed
qed

text \<open>On a grid without a row \<open>101\<close>, the loop started at a coordinate of finite cost
  returns a wall-free walk from the start to that coordinate, in reverse, and the walk has
  that cost.\<close>

lemma reconstruct_loop_chain:
  assumes KP: "K_parents gm pf" and KR: "K_real gm pf"
    and KS: "m_costGrid pf (m_start gm) = Fin 0"
    and small: "\<And>p. in_bounds gm p \<Longrightarrow> fst p \<noteq> 101"
    and "m_costGrid pf n = Fin k"
  shows "\<exists>ps. reconstruct_loop (m_previous pf) n acc = Some (acc @ rev ps) \<and>
            walk gm ps \<and> wall_free gm ps \<and> hd ps = m_start gm \<and> last ps = n \<and>
            path_cost gm ps = k"
  using assms(5)
proof (induction "card {m. \<exists>cm c. m_costGrid pf m = Fin cm \<and> m_costGrid pf n = Fin c \<and> cm < c}"
    arbitrary: n k acc rule: less_induct)
  case less
  have nb: "in_bounds gm n"
    using KR [unfolded K_real_def, rule_format, OF less.prems] by (rule reached_in_bounds)
  then have n101: "fst n \<noteq> 101" by (rule small)
  show ?case
  proof (cases "n = m_start gm")
    case True
    then have "k = 0" using less.prems KS by simp
    moreover have "reconstruct_loop (m_previous pf) n acc = Some (acc @ [n])"
      using KP True n101 by (simp add: K_parents_def reconstruct_loop_step reconstruct_loop_stop)
    ultimately show ?thesis using True nb by (intro exI [of _ "[n]"]) simp
  next
    case False
    let ?p = "m_previous pf n"
    from KP [unfolded K_parents_def, THEN conjunct2, rule_format, of n k] less.prems False
    obtain cp where p: "adjacent ?p n" "cell gm n \<noteq> Wall" "m_costGrid pf ?p = Fin cp"
      "k = cp + step_cost gm n"
      by auto
    have "cp < k" using p(4) step_cost_pos [OF p(2)] by linarith
    then have "?p \<in> {m. \<exists>cm c. m_costGrid pf m = Fin cm \<and> m_costGrid pf n = Fin c \<and> cm < c}"
      and "?p \<notin> {m. \<exists>cm c. m_costGrid pf m = Fin cm \<and> m_costGrid pf ?p = Fin c \<and> cm < c}"
      and "{m. \<exists>cm c. m_costGrid pf m = Fin cm \<and> m_costGrid pf ?p = Fin c \<and> cm < c}
        \<subseteq> {m. \<exists>cm c. m_costGrid pf m = Fin cm \<and> m_costGrid pf n = Fin c \<and> cm < c}"
      using p(3) less.prems by auto
    then have "{m. \<exists>cm c. m_costGrid pf m = Fin cm \<and> m_costGrid pf ?p = Fin c \<and> cm < c}
        \<subset> {m. \<exists>cm c. m_costGrid pf m = Fin cm \<and> m_costGrid pf n = Fin c \<and> cm < c}"
      by blast
    then have "card {m. \<exists>cm c. m_costGrid pf m = Fin cm \<and> m_costGrid pf ?p = Fin c \<and> cm < c}
        < card {m. \<exists>cm c. m_costGrid pf m = Fin cm \<and> m_costGrid pf n = Fin c \<and> cm < c}"
      by (rule psubset_card_mono [OF finite])
    from less.hyps [OF this p(3), of "acc @ [n]"]
    obtain ps where ps: "reconstruct_loop (m_previous pf) ?p (acc @ [n]) = Some ((acc @ [n]) @ rev ps)"
      "walk gm ps" "wall_free gm ps" "hd ps = m_start gm" "last ps = ?p" "path_cost gm ps = cp"
      by blast
    have ne: "ps \<noteq> []" using ps(2) by (rule walk_nonempty)
    have "reconstruct_loop (m_previous pf) n acc = Some (acc @ rev (ps @ [n]))"
      using ps(1) n101 by (simp add: reconstruct_loop_step)
    moreover have "walk gm (ps @ [n])" using ps(2,5) p(1) nb ne by (simp add: walk_snoc)
    moreover have "wall_free gm (ps @ [n])" using ps(3) p(2) ne by (simp add: wall_free_snoc)
    moreover have "hd (ps @ [n]) = m_start gm" using ps(4) ne by simp
    moreover have "path_cost gm (ps @ [n]) = k" using ps(6) p(4) ne by (simp add: path_cost_snoc)
    ultimately show ?thesis by (intro exI [of _ "ps @ [n]"]) simp
  qed
qed

subsection \<open>The result of the search\<close>

lemma found_post:
  assumes c: "pq_contract P heap items"
    and A: "inv_A heap items pf" and C: "inv_C gm heap items pf None"
    and ne: "items (m_queue pf) \<noteq> {#}"
    and nv: "\<not> m_visited pf (node_pos (pq_top P (m_queue pf)))"
    and g: "node_pos (pq_top P (m_queue pf)) = m_goal gm"
    and g101: "fst (m_goal gm) \<noteq> 101"
  shows "\<exists>p. reconstructPath (visit P pf) (m_goal gm) = Some p \<and>
      search_post gm \<lparr>path = p, totalCost = m_costGrid (visit P pf) (m_goal gm)\<rparr>"
proof -
  let ?k = "node_g (pq_top P (m_queue pf))"
  note opt = found_optimal [OF c C ne nv g]
  have same: "m_costGrid (visit P pf) = m_costGrid pf" "m_previous (visit P pf) = m_previous pf"
    by (simp_all add: visit_def)
  have d: "descending (m_costGrid pf) (m_previous pf)" using A by (simp add: inv_A_def)
  from reconstruct_loop_shape [OF d g101, of "[]"]
  obtain ys where ys: "reconstruct_loop (m_previous pf) (m_goal gm) [] = Some (m_goal gm # ys)"
    by auto
  let ?p = "rev (m_goal gm # ys)"
  have rp: "reconstructPath (visit P pf) (m_goal gm) = Some ?p"
    using ys by (simp add: reconstructPath_def same)
  have small: "route gm ?p \<and> wall_free gm ?p \<and> path_cost gm ?p = ?k"
    if s: "\<forall>p. in_bounds gm p \<longrightarrow> fst p \<noteq> 101"
  proof -
    have KP: "K_parents gm pf" and KR: "K_real gm pf" and KS: "m_costGrid pf (m_start gm) = Fin 0"
      using C by (simp_all add: inv_C_def)
    from reconstruct_loop_chain [OF KP KR KS _ opt(1), of "[]"] s
    obtain ps where ps: "reconstruct_loop (m_previous pf) (m_goal gm) [] = Some (rev ps)"
      "walk gm ps" "wall_free gm ps" "hd ps = m_start gm" "last ps = m_goal gm"
      "path_cost gm ps = ?k"
      by auto
    have "?p = ps" using ps(1) ys by simp
    then show ?thesis using ps by (simp add: route_def)
  qed
  have "search_post gm \<lparr>path = ?p, totalCost = m_costGrid (visit P pf) (m_goal gm)\<rparr>"
    unfolding search_post_def using opt small by (auto simp: same)
  then show ?thesis using rp by blast
qed

lemma search_loop_post:
  assumes c: "pq_contract P heap items"
    and A: "inv_A heap items pf0" and C: "inv_C gm heap items pf0 None"
    and g101: "fst (m_goal gm) \<noteq> 101"
  shows "\<exists>r pf'. search_loop P gm (m_goal gm) pf0 = Some (Inr (r, pf')) \<and> search_post gm r"
proof (rule search_loop_rule [OF c,
      where I = "\<lambda>pf. inv_A heap items pf \<and> inv_C gm heap items pf None"])
  show "inv_A heap items pf0 \<and> inv_C gm heap items pf0 None" using A C by simp
next
  fix pf assume "inv_A heap items pf \<and> inv_C gm heap items pf None"
  then show "heap (m_queue pf)" by (simp add: inv_A_def)
next
  fix pf
  assume "inv_A heap items pf \<and> inv_C gm heap items pf None" "items (m_queue pf) \<noteq> {#}"
    "m_visited pf (node_pos (pq_top P (m_queue pf)))"
  then show "inv_A heap items (popped P pf) \<and> inv_C gm heap items (popped P pf) None"
    using popped_A [OF c] popped_C [OF c] by blast
next
  fix pf
  assume a: "inv_A heap items pf \<and> inv_C gm heap items pf None" "items (m_queue pf) \<noteq> {#}"
    "\<not> m_visited pf (node_pos (pq_top P (m_queue pf)))"
    "node_pos (pq_top P (m_queue pf)) \<noteq> m_goal gm"
  have A': "inv_A heap items pf" and C': "inv_C gm heap items pf None" using a(1) by simp_all
  have "inv_A heap items (explored P gm (pq_top P (m_queue pf)) (visit P pf))"
    by (rule explored_A [OF c visit_A(1,2) [OF c A' a(2)]])
  moreover have "inv_C gm heap items (explored P gm (pq_top P (m_queue pf)) (visit P pf)) None"
    by (rule explored_C [OF c visit_C [OF c C' a(2,3,4)]])
  ultimately show "inv_A heap items (explored P gm (pq_top P (m_queue pf)) (visit P pf)) \<and>
      inv_C gm heap items (explored P gm (pq_top P (m_queue pf)) (visit P pf)) None"
    by simp
next
  fix pf
  assume a: "inv_A heap items pf \<and> inv_C gm heap items pf None" "items (m_queue pf) \<noteq> {#}"
    "\<not> m_visited pf (node_pos (pq_top P (m_queue pf)))"
    "node_pos (pq_top P (m_queue pf)) = m_goal gm"
  have A': "inv_A heap items pf" and C': "inv_C gm heap items pf None" using a(1) by simp_all
  show "\<exists>p. reconstructPath (visit P pf) (m_goal gm) = Some p \<and>
      search_post gm \<lparr>path = p, totalCost = m_costGrid (visit P pf) (m_goal gm)\<rparr>"
    by (rule found_post [OF c A' C' a(2,3,4) g101])
next
  fix pf
  assume a: "inv_A heap items pf \<and> inv_C gm heap items pf None" "items (m_queue pf) = {#}"
  then have "\<not> (\<exists>ps. route gm ps \<and> wall_free gm ps)"
    using exhausted_unreachable [of gm heap items pf] by blast
  then show "search_post gm \<lparr>path = [], totalCost = Fin (- 1)\<rparr>"
    by (simp add: search_post_def)
qed

text \<open>The search on a pathfinder just constructed, when neither tracked row is \<open>101\<close>.\<close>

lemma findPath_post:
  assumes ok: "pq_ok P" and wf: "wf_grid gm"
    and s101: "fst (m_start gm) \<noteq> 101" and g101: "fst (m_goal gm) \<noteq> 101"
  shows "\<exists>r. findPath_fresh P gm = Some (Inr r) \<and> search_post gm r"
proof -
  obtain heap items where c: "pq_contract P heap items"
    using ok unfolding pq_ok_def by blast
  have sb: "in_bounds gm (m_start gm)" using wf s101 by (auto simp: wf_grid_def unset_def)
  define pf' where "pf' = (initialize gm (Pathfinder_new P))
     \<lparr>m_costGrid := (m_costGrid (initialize gm (Pathfinder_new P)))(m_start gm := Fin 0),
      m_queue := pq_push P \<lparr>node_row = fst (m_start gm), node_col = snd (m_start gm), node_g = 0,
          node_f = heuristic gm (fst (m_start gm)) (snd (m_start gm))\<rparr>
        (m_queue (initialize gm (Pathfinder_new P)))\<rparr>"
  have h0: "heap (m_queue (Pathfinder_new P))" "items (m_queue (Pathfinder_new P)) = {#}"
    by (simp_all add: Pathfinder_new_def pq_new_heap [OF c] pq_new_items [OF c])
  note i = initial_state [OF c h0(1) pf'_def]
  have A: "inv_A heap items pf'"
    unfolding inv_A_def i(2,3,5)
    using i(1) by (simp add: h0(2) settled_def i(3) descending_def)
  have C: "inv_C gm heap items pf' None" by (rule init_C [OF c h0 sb pf'_def])
  from search_loop_post [OF c A C g101]
  obtain r pf'' where r: "search_loop P gm (m_goal gm) pf' = Some (Inr (r, pf''))" "search_post gm r"
    by blast
  have "findPath P gm (Pathfinder_new P) = search_loop P gm (m_goal gm) pf'"
    using s101 g101 unfolding pf'_def
    by (simp add: findPath_def Let_def startPosition_def goalPosition_def)
  then show ?thesis using r by (simp add: findPath_fresh_def)
qed

subsection \<open>Grids without walls\<close>

lemma no_walls_cell:
  assumes "wf_grid gm" and "no_walls gm" and "in_bounds gm p"
  shows "cell gm p \<noteq> Wall"
proof -
  have r: "unat (fst p) < length (m_grid gm)"
    using assms(1,3) by (simp add: wf_grid_def in_bounds_def word_less_nat_alt)
  then have m: "m_grid gm ! unat (fst p) \<in> set (m_grid gm)" by simp
  then have "length (m_grid gm ! unat (fst p)) = unat (m_cols gm)"
    using assms(1) by (simp add: wf_grid_def)
  then have "unat (snd p) < length (m_grid gm ! unat (fst p))"
    using assms(3) by (simp add: in_bounds_def word_less_nat_alt)
  then have "cell gm p \<in> set (m_grid gm ! unat (fst p))"
    by (simp add: cell_def grid_read_def)
  then have "cell gm p \<in> set (concat (m_grid gm))" using m by auto
  then show ?thesis using assms(2) by (auto simp: no_walls_def)
qed

lemma walk_in_bounds: "walk gm ps \<Longrightarrow> p \<in> set ps \<Longrightarrow> in_bounds gm p"
  by (induction gm ps rule: walk.induct) auto

lemma no_walls_wall_free:
  assumes "wf_grid gm" and "no_walls gm" and "walk gm ps"
  shows "wall_free gm ps"
  unfolding wall_free_def
proof
  fix p assume "p \<in> set (tl ps)"
  then have "p \<in> set ps" by (rule list.set_sel(2) [rotated]) (use assms(3) in \<open>auto dest: walk_nonempty\<close>)
  then have "in_bounds gm p" using assms(3) by (simp add: walk_in_bounds)
  then show "cell gm p \<noteq> Wall" by (rule no_walls_cell [OF assms(1,2)])
qed

lemma walk_Cons:
  "ps \<noteq> [] \<Longrightarrow> walk gm (p # ps) \<longleftrightarrow> in_bounds gm p \<and> adjacent p (hd ps) \<and> walk gm ps"
  by (cases ps) auto

text \<open>Any two cells of a grid are joined by a walk: step towards the target, first along
  the rows, then along the columns.\<close>

lemma towards:
  assumes "in_bounds gm p" and "in_bounds gm q" and "p \<noteq> q"
  shows "\<exists>i<4. nbr_ok gm p i \<and>
      \<bar>fst (nbr p i) - uint (fst q)\<bar> + \<bar>snd (nbr p i) - uint (snd q)\<bar>
        < \<bar>uint (fst p) - uint (fst q)\<bar> + \<bar>uint (snd p) - uint (snd q)\<bar>"
proof -
  define pr pc qr qc where d: "pr = uint (fst p)" "pc = uint (snd p)" "qr = uint (fst q)"
    "qc = uint (snd q)"
  have b: "pr < uint (m_rows gm)" "pc < uint (m_cols gm)" "qr < uint (m_rows gm)"
    "qc < uint (m_cols gm)"
    using assms(1,2) by (simp_all add: in_bounds_def word_less_alt d)
  have z: "0 \<le> pr" "0 \<le> pc" "0 \<le> qr" "0 \<le> qc"
    by (simp_all add: d)
  have "pr \<noteq> qr \<or> pc \<noteq> qc"
    using assms(3) by (auto simp: prod_eq_iff word_uint_eq_iff d)
  then consider (0) "qr < pr" | (1) "pr < qr" | (2) "qc < pc" | (3) "pc < qc"
    by linarith
  then have "\<exists>i<4. (0 \<le> pr + dr ! i \<and> pr + dr ! i < uint (m_rows gm) \<and>
        0 \<le> pc + dc ! i \<and> pc + dc ! i < uint (m_cols gm)) \<and>
      \<bar>pr + dr ! i - qr\<bar> + \<bar>pc + dc ! i - qc\<bar> < \<bar>pr - qr\<bar> + \<bar>pc - qc\<bar>"
  proof cases
    case 0
    then show ?thesis using b z by (intro exI [of _ 0]) (simp add: dr_def dc_def)
  next
    case 1
    then show ?thesis using b z by (intro exI [of _ 1]) (simp add: dr_def dc_def)
  next
    case 2
    then show ?thesis using b z by (intro exI [of _ 2]) (simp add: dr_def dc_def)
  next
    case 3
    then show ?thesis using b z by (intro exI [of _ 3]) (simp add: dr_def dc_def)
  qed
  then show ?thesis by (simp add: nbr_ok_def nbr_def d)
qed

lemma connected:
  assumes "in_bounds gm p" and "in_bounds gm q"
  shows "\<exists>ps. walk gm ps \<and> hd ps = p \<and> last ps = q"
  using assms(1)
proof (induction "nat (\<bar>uint (fst p) - uint (fst q)\<bar> + \<bar>uint (snd p) - uint (snd q)\<bar>)"
    arbitrary: p rule: less_induct)
  case less
  show ?case
  proof (cases "p = q")
    case True
    then show ?thesis using less.prems by (intro exI [of _ "[p]"]) simp
  next
    case False
    from towards [OF less.prems assms(2) False]
    obtain i where i: "i < 4" "nbr_ok gm p i"
      "\<bar>fst (nbr p i) - uint (fst q)\<bar> + \<bar>snd (nbr p i) - uint (snd q)\<bar>
        < \<bar>uint (fst p) - uint (fst q)\<bar> + \<bar>uint (snd p) - uint (snd q)\<bar>"
      by blast
    note s = nbr_sound [OF i(2,1)]
    have "nat (\<bar>uint (fst (nbr_pos p i)) - uint (fst q)\<bar> + \<bar>uint (snd (nbr_pos p i)) - uint (snd q)\<bar>)
        < nat (\<bar>uint (fst p) - uint (fst q)\<bar> + \<bar>uint (snd p) - uint (snd q)\<bar>)"
      using i(3) unfolding s(3,4) by linarith
    from less.hyps [OF this s(1)]
    obtain ps where ps: "walk gm ps" "hd ps = nbr_pos p i" "last ps = q" by blast
    have ne: "ps \<noteq> []" using ps(1) by (rule walk_nonempty)
    have "walk gm (p # ps)" using ps(1,2) s(2) less.prems ne by (simp add: walk_Cons)
    then show ?thesis using ps(3) ne by (intro exI [of _ "p # ps"]) simp
  qed
qed

text \<open>
  C4, as the code has it: on a grid without a \<open>Wall\<close> cell whose tracked start and goal
  are set and neither in row \<open>101\<close>, the first call of \<open>findPath\<close> on a pathfinder just
  constructed returns a \<open>totalCost\<close> that is the cost of some walk from the start to the
  goal and is no higher than the cost of any such walk, the cost of a walk being the sum
  of the step costs of the cells it enters.
\<close>

theorem findPath_cost_minimal:
  assumes "pq_ok P" and "wf_grid gm" and "no_walls gm"
    and "fst (m_start gm) \<noteq> 101" and "fst (m_goal gm) \<noteq> 101"
  shows "\<exists>r k. findPath_fresh P gm = Some (Inr r) \<and> totalCost r = Fin k \<and>
           (\<exists>ps. route gm ps \<and> path_cost gm ps = k) \<and>
           (\<forall>ps. route gm ps \<longrightarrow> k \<le> path_cost gm ps)"
proof -
  from findPath_post [OF assms(1,2,4,5)]
  obtain r where r: "findPath_fresh P gm = Some (Inr r)" "search_post gm r" by blast
  have sb: "in_bounds gm (m_start gm)" "in_bounds gm (m_goal gm)"
    using assms(2,4,5) by (auto simp: wf_grid_def unset_def)
  from connected [OF sb] obtain ps0 where ps0: "route gm ps0" by (auto simp: route_def)
  have wfree: "wall_free gm ps" if "route gm ps" for ps
    using that no_walls_wall_free [OF assms(2,3)] by (simp add: route_def)
  have "\<exists>ps. route gm ps \<and> wall_free gm ps" using ps0 wfree by blast
  then obtain k where k: "totalCost r = Fin k" "reached gm (m_goal gm) k"
    "\<forall>ps. route gm ps \<and> wall_free gm ps \<longrightarrow> k \<le> path_cost gm ps"
    using r(2) unfolding search_post_def by blast
  have "\<exists>ps. route gm ps \<and> path_cost gm ps = k"
    using k(2) unfolding reached_def route_def by blast
  moreover have "\<forall>ps. route gm ps \<longrightarrow> k \<le> path_cost gm ps" using k(3) wfree by blast
  ultimately show ?thesis using r(1) k(1) by blast
qed

theorem findPath_cost_minimal_witness:
  "pq_ok list_pq \<and>
   wf_grid (setCells (GridModel_new 3 3) [(0, 0, Start), (2, 2, Goal), (1, 1, Boost)]) \<and>
   no_walls (setCells (GridModel_new 3 3) [(0, 0, Start), (2, 2, Goal), (1, 1, Boost)]) \<and>
   m_start (setCells (GridModel_new 3 3) [(0, 0, Start), (2, 2, Goal), (1, 1, Boost)]) = (0, 0) \<and>
   m_goal (setCells (GridModel_new 3 3) [(0, 0, Start), (2, 2, Goal), (1, 1, Boost)]) = (2, 2) \<and>
   findPath_fresh list_pq (setCells (GridModel_new 3 3) [(0, 0, Start), (2, 2, Goal), (1, 1, Boost)]) =
     Some (Inr \<lparr>path = [(0, 0), (1, 0), (1, 1), (2, 1), (2, 2)], totalCost = Fin (7 / 2)\<rparr>) \<and>
   (\<exists>ps. route (setCells (GridModel_new 3 3) [(0, 0, Start), (2, 2, Goal), (1, 1, Boost)]) ps \<and>
      path_cost (setCells (GridModel_new 3 3) [(0, 0, Start), (2, 2, Goal), (1, 1, Boost)]) ps = 7 / 2)"
proof -
  let ?gm = "setCells (GridModel_new 3 3) [(0, 0, Start), (2, 2, Goal), (1, 1, Boost)]"
  have wf: "wf_grid ?gm" by (rule wf_grid_setCells [OF wf_grid_new])
  have nw: "no_walls ?gm" by code_simp
  have s: "m_start ?gm = (0, 0)" and g: "m_goal ?gm = (2, 2)" by code_simp+
  have e: "findPath_fresh list_pq ?gm =
     Some (Inr \<lparr>path = [(0, 0), (1, 0), (1, 1), (2, 1), (2, 2)], totalCost = Fin (7 / 2)\<rparr>)"
    by code_simp
  have "fst (m_start ?gm) \<noteq> 101" "fst (m_goal ?gm) \<noteq> 101" unfolding s g by simp_all
  from findPath_cost_minimal [OF list_pq_ok wf nw this] e
  have "\<exists>ps. route ?gm ps \<and> path_cost ?gm ps = 7 / 2" by auto
  then show ?thesis using list_pq_ok wf nw s g e by blast
qed

lemma path_cost_pos:
  assumes "walk gm ps" and "wall_free gm ps" and "hd ps \<noteq> last ps"
  shows "1 / 2 \<le> path_cost gm ps"
proof -
  obtain p q rest where ps: "ps = p # q # rest"
    using assms(1,3) by (cases ps; cases "tl ps") auto
  have "cell gm q \<noteq> Wall" using assms(2) by (simp add: ps wall_free_def)
  then have 1: "1 / 2 \<le> step_cost gm q" by (rule step_cost_pos)
  have "wall_free gm (q # rest)" using assms(2) by (simp add: ps wall_free_def)
  then have 2: "0 \<le> path_cost gm (q # rest)" by (rule path_cost_nonneg)
  have "path_cost gm ps = step_cost gm q + path_cost gm (q # rest)"
    by (simp add: ps path_cost_def)
  then show ?thesis using 1 2 by linarith
qed

text \<open>The cost a pathfinder just constructed returns with a path is a lower bound of the
  cost of every wall-free walk from the start to the goal.\<close>

lemma fresh_cost_least:
  assumes "pq_ok P" and "wf_grid gm"
    and "fst (m_start gm) \<noteq> 101" and "fst (m_goal gm) \<noteq> 101"
    and "findPath_fresh P gm = Some (Inr r)" and "totalCost r = Fin k" and "path r \<noteq> []"
    and "route gm ps" and "wall_free gm ps"
  shows "k \<le> path_cost gm ps"
proof -
  from findPath_post [OF assms(1-4)] assms(5) have "search_post gm r" by auto
  then show ?thesis using assms(6-9) unfolding search_post_def by auto
qed

text \<open>
  C4 as stated fails in two ways. On a grid with more than \<open>101\<close> rows: on the \<open>102 x 1\<close>
  grid without walls, with the start set at \<open>(101, 0)\<close> and the goal at \<open>(100, 0)\<close>,
  \<open>findPath\<close> returns the cost \<open>0.0\<close>, and no walk from the start to the goal has cost \<open>0\<close>.
  On a pathfinder that has searched before: on the \<open>1 x 5\<close> grid with a \<open>Boost\<close> cell at
  \<open>(0, 3)\<close>, a first call with the start at \<open>(0, 2)\<close> and the goal at \<open>(0, 1)\<close> leaves the node
  \<open>(0, 3)\<close> with \<open>g = 0.5\<close> in the queue; after the start is moved to \<open>(0, 0)\<close> and the goal
  to \<open>(0, 4)\<close>, the second call pops that node first and returns the cost \<open>1.5\<close>, and no
  walk from the start to the goal costs less than \<open>3.5\<close>.
\<close>

theorem findPath_cost_minimal_counterexample:
  "no_walls (setCells (GridModel_new 102 1) [(101, 0, Start), (100, 0, Goal)]) \<and>
   m_start (setCells (GridModel_new 102 1) [(101, 0, Start), (100, 0, Goal)]) = (101, 0) \<and>
   m_goal (setCells (GridModel_new 102 1) [(101, 0, Start), (100, 0, Goal)]) = (100, 0) \<and>
   in_bounds (setCells (GridModel_new 102 1) [(101, 0, Start), (100, 0, Goal)]) (101, 0) \<and>
   findPath_fresh list_pq (setCells (GridModel_new 102 1) [(101, 0, Start), (100, 0, Goal)]) =
     Some (Inr \<lparr>path = [], totalCost = Fin 0\<rparr>) \<and>
   \<not> (\<exists>ps. route (setCells (GridModel_new 102 1) [(101, 0, Start), (100, 0, Goal)]) ps \<and>
          path_cost (setCells (GridModel_new 102 1) [(101, 0, Start), (100, 0, Goal)]) ps = 0) \<and>
   no_walls (setCells (setCells (GridModel_new 1 5) [(0, 2, Start), (0, 1, Goal), (0, 3, Boost)])
     [(0, 0, Start), (0, 4, Goal)]) \<and>
   m_start (setCells (setCells (GridModel_new 1 5) [(0, 2, Start), (0, 1, Goal), (0, 3, Boost)])
     [(0, 0, Start), (0, 4, Goal)]) = (0, 0) \<and>
   m_goal (setCells (setCells (GridModel_new 1 5) [(0, 2, Start), (0, 1, Goal), (0, 3, Boost)])
     [(0, 0, Start), (0, 4, Goal)]) = (0, 4) \<and>
   findPath_twice list_pq
     (setCells (GridModel_new 1 5) [(0, 2, Start), (0, 1, Goal), (0, 3, Boost)])
     (setCells (setCells (GridModel_new 1 5) [(0, 2, Start), (0, 1, Goal), (0, 3, Boost)])
        [(0, 0, Start), (0, 4, Goal)]) =
     Some (Inr \<lparr>path = [(0, 3), (0, 4)], totalCost = Fin (3 / 2)\<rparr>) \<and>
   \<not> (\<exists>ps. route (setCells (setCells (GridModel_new 1 5) [(0, 2, Start), (0, 1, Goal), (0, 3, Boost)])
         [(0, 0, Start), (0, 4, Goal)]) ps \<and>
       path_cost (setCells (setCells (GridModel_new 1 5) [(0, 2, Start), (0, 1, Goal), (0, 3, Boost)])
         [(0, 0, Start), (0, 4, Goal)]) ps < 7 / 2)"
proof -
  define gm where "gm = setCells (GridModel_new 102 1) [(101, 0, Start), (100, 0, Goal)]"
  have wf: "wf_grid gm" unfolding gm_def by (rule wf_grid_setCells [OF wf_grid_new])
  have nw: "no_walls gm" unfolding gm_def by code_simp
  have s: "m_start gm = (101, 0)" and g: "m_goal gm = (100, 0)"
    and b: "in_bounds gm (101, 0)"
    unfolding gm_def by code_simp+
  have e: "findPath_fresh list_pq gm = Some (Inr \<lparr>path = [], totalCost = Fin 0\<rparr>)"
    unfolding gm_def by code_simp
  have "path_cost gm ps \<noteq> 0" if r: "route gm ps" for ps
  proof -
    have w: "walk gm ps" and "hd ps \<noteq> last ps" using r by (simp_all add: route_def s g)
    from path_cost_pos [OF w no_walls_wall_free [OF wf nw w] this(2)] show ?thesis by simp
  qed
  then have n: "\<not> (\<exists>ps. route gm ps \<and> path_cost gm ps = 0)" by blast
  define gm1 where "gm1 = setCells (GridModel_new 1 5) [(0, 2, Start), (0, 1, Goal), (0, 3, Boost)]"
  define gm2 where "gm2 = setCells gm1 [(0, 0, Start), (0, 4, Goal)]"
  have wf2: "wf_grid gm2" unfolding gm2_def gm1_def
    by (intro wf_grid_setCells wf_grid_new)
  have nw2: "no_walls gm2" and s2: "m_start gm2 = (0, 0)" and g2: "m_goal gm2 = (0, 4)"
    unfolding gm2_def gm1_def by code_simp+
  have e2: "findPath_twice list_pq gm1 gm2 =
      Some (Inr \<lparr>path = [(0, 3), (0, 4)], totalCost = Fin (3 / 2)\<rparr>)"
    unfolding gm2_def gm1_def by code_simp
  have f2: "findPath_fresh list_pq gm2 =
      Some (Inr \<lparr>path = [(0, 0), (0, 1), (0, 2), (0, 3), (0, 4)], totalCost = Fin (7 / 2)\<rparr>)"
    unfolding gm2_def gm1_def by code_simp
  have "7 / 2 \<le> path_cost gm2 ps" if r: "route gm2 ps" for ps
  proof -
    have "walk gm2 ps" using r by (simp add: route_def)
    then have wfr: "wall_free gm2 ps" by (rule no_walls_wall_free [OF wf2 nw2])
    have "fst (m_start gm2) \<noteq> 101" "fst (m_goal gm2) \<noteq> 101" unfolding s2 g2 by simp_all
    from fresh_cost_least [OF list_pq_ok wf2 this f2 _ _ r wfr, of "7 / 2"]
    show ?thesis by simp
  qed
  then have n2: "\<not> (\<exists>ps. route gm2 ps \<and> path_cost gm2 ps < 7 / 2)" by (auto simp: not_less)
  show ?thesis
    unfolding gm_def [symmetric] gm1_def [symmetric] gm2_def [symmetric]
    using nw s g b e n nw2 s2 g2 e2 n2 by (intro conjI)
qed

text \<open>
  C5 as stated fails in two ways. On a grid with more than \<open>102\<close> rows: on the \<open>103 x 1\<close>
  grid with the start at \<open>(100, 0)\<close> and the goal at \<open>(102, 0)\<close>, the only walk passes
  through row \<open>101\<close>; \<open>reconstructPath\<close> stops there, and \<open>findPath\<close> returns the
  one-coordinate path \<open>[(102, 0)]\<close>, whose steps sum to \<open>0\<close>, with the cost \<open>2.0\<close>. On a
  pathfinder that has searched before: on the \<open>1 x 5\<close> grid with a \<open>Boost\<close> cell at
  \<open>(0, 3)\<close>, a first call with the start at \<open>(0, 2)\<close> and the goal at \<open>(0, 1)\<close> leaves the node
  \<open>(0, 3)\<close> with \<open>g = 0.5\<close> in the queue; after the start is moved to \<open>(0, 0)\<close> and the goal
  to \<open>(0, 4)\<close>, the second call returns the path \<open>[(0, 3), (0, 4)]\<close>, which does not begin
  at the start and whose one step costs \<open>1.0\<close>, with the cost \<open>1.5\<close>.
\<close>

theorem path_cost_accounting_counterexample:
  "findPath_fresh list_pq (setCells (GridModel_new 103 1) [(100, 0, Start), (102, 0, Goal)]) =
     Some (Inr \<lparr>path = [(102, 0)], totalCost = Fin 2\<rparr>) \<and>
   sum_list (map (\<lambda>p. getCost (cell (setCells (GridModel_new 103 1)
     [(100, 0, Start), (102, 0, Goal)]) p)) (tl [(102, 0)])) = 0 \<and>
   unat (m_rows (setCells (setCells (GridModel_new 1 5) [(0, 2, Start), (0, 1, Goal), (0, 3, Boost)])
     [(0, 0, Start), (0, 4, Goal)])) \<le> 101 \<and>
   m_start (setCells (setCells (GridModel_new 1 5) [(0, 2, Start), (0, 1, Goal), (0, 3, Boost)])
     [(0, 0, Start), (0, 4, Goal)]) = (0, 0) \<and>
   findPath_twice list_pq
     (setCells (GridModel_new 1 5) [(0, 2, Start), (0, 1, Goal), (0, 3, Boost)])
     (setCells (setCells (GridModel_new 1 5) [(0, 2, Start), (0, 1, Goal), (0, 3, Boost)])
        [(0, 0, Start), (0, 4, Goal)]) =
     Some (Inr \<lparr>path = [(0, 3), (0, 4)], totalCost = Fin (3 / 2)\<rparr>) \<and>
   sum_list (map (\<lambda>p. getCost (cell (setCells (setCells (GridModel_new 1 5)
     [(0, 2, Start), (0, 1, Goal), (0, 3, Boost)]) [(0, 0, Start), (0, 4, Goal)]) p))
     (tl [(0, 3), (0, 4)])) = 1"
  by code_simp

text \<open>
  C6 at a concrete input: on the \<open>1 x 2\<close> grid, after \<open>Start\<close> is set at \<open>(0, 0)\<close>, \<open>Goal\<close> at
  \<open>(0, 1)\<close> and then \<open>Wall\<close> at \<open>(0, 0)\<close>, the start is still tracked at \<open>(0, 0)\<close>, and
  \<open>findPath\<close> returns the path \<open>[(0, 0), (0, 1)]\<close>, whose first cell is a \<open>Wall\<close>.
\<close>

theorem path_starts_on_wall:
  "startPosition (setCells (GridModel_new 1 2) [(0, 0, Start), (0, 1, Goal), (0, 0, Wall)]) = (0, 0) \<and>
   cell (setCells (GridModel_new 1 2) [(0, 0, Start), (0, 1, Goal), (0, 0, Wall)]) (0, 0) = Wall \<and>
   findPath_fresh list_pq (setCells (GridModel_new 1 2) [(0, 0, Start), (0, 1, Goal), (0, 0, Wall)]) =
     Some (Inr \<lparr>path = [(0, 0), (0, 1)], totalCost = Fin 1\<rparr>)"
  by code_simp

lemma early_return:
  "fst (m_start gm) = 101 \<or> fst (m_goal gm) = 101 \<Longrightarrow>
   findPath_fresh P gm = Some (Inr \<lparr>path = [], totalCost = Fin 0\<rparr>)"
  by (simp add: findPath_fresh_def findPath_def Let_def startPosition_def goalPosition_def)

text \<open>
  C5, as the code has it: on a grid of at most \<open>101\<close> rows (so that no cell is in row
  \<open>101\<close>), whenever the first call of \<open>findPath\<close> on a pathfinder just constructed returns
  a non-empty path, the path is a walk from the start to the goal that enters no wall, and
  \<open>totalCost\<close> is the sum, over the cells the path enters, of the step cost of the cell's
  type: \<open>Rough\<close> 2.0, \<open>Boost\<close> 0.5, \<open>Normal\<close>, \<open>Start\<close> and \<open>Goal\<close> 1.0.
\<close>

theorem path_cost_accounting:
  assumes "pq_ok P" and "wf_grid gm" and "unat (m_rows gm) \<le> 101"
    and "findPath_fresh P gm = Some (Inr r)" and "path r \<noteq> []"
  shows "totalCost r = Fin (sum_list (map (\<lambda>p. getCost (cell gm p)) (tl (path r)))) \<and>
         route gm (path r) \<and> wall_free gm (path r) \<and>
         getCost Rough = 2 \<and> getCost Boost = 1 / 2 \<and>
         getCost Normal = 1 \<and> getCost Start = 1 \<and> getCost Goal = 1"
proof -
  have ne: "fst (m_start gm) \<noteq> 101 \<and> fst (m_goal gm) \<noteq> 101"
  proof (rule ccontr)
    assume "\<not> ?thesis"
    then have "findPath_fresh P gm = Some (Inr \<lparr>path = [], totalCost = Fin 0\<rparr>)"
      by (intro early_return) auto
    then show False using assms(4,5) by auto
  qed
  from findPath_post [OF assms(1,2)] ne assms(4)
  have post: "search_post gm r" by auto
  have small: "\<forall>p. in_bounds gm p \<longrightarrow> fst p \<noteq> 101"
  proof (intro allI impI)
    fix p assume "in_bounds gm p"
    then have "unat (fst p) < unat (m_rows gm)" by (simp add: in_bounds_def word_less_nat_alt)
    then have "unat (fst p) < 101" using assms(3) by linarith
    then show "fst p \<noteq> 101" by auto
  qed
  from post assms(5) small
  obtain k where k: "totalCost r = Fin k" "route gm (path r)" "wall_free gm (path r)"
    "path_cost gm (path r) = k"
    unfolding search_post_def by blast
  have "step_cost gm = (\<lambda>p. getCost (cell gm p))" by (simp add: fun_eq_iff step_cost_def)
  then have "path_cost gm (path r) = sum_list (map (\<lambda>p. getCost (cell gm p)) (tl (path r)))"
    by (simp add: path_cost_def)
  then show ?thesis using k by (simp add: getCost_def)
qed

theorem path_cost_accounting_witness:
  "pq_ok list_pq \<and>
   wf_grid (setCells (GridModel_new 3 3) [(0, 0, Start), (2, 2, Goal), (1, 1, Boost), (1, 0, Rough)]) \<and>
   unat (m_rows (setCells (GridModel_new 3 3)
     [(0, 0, Start), (2, 2, Goal), (1, 1, Boost), (1, 0, Rough)])) \<le> 101 \<and>
   findPath_fresh list_pq (setCells (GridModel_new 3 3)
     [(0, 0, Start), (2, 2, Goal), (1, 1, Boost), (1, 0, Rough)]) =
     Some (Inr \<lparr>path = [(0, 0), (0, 1), (1, 1), (2, 1), (2, 2)], totalCost = Fin (7 / 2)\<rparr>) \<and>
   route (setCells (GridModel_new 3 3) [(0, 0, Start), (2, 2, Goal), (1, 1, Boost), (1, 0, Rough)])
     [(0, 0), (0, 1), (1, 1), (2, 1), (2, 2)]"
proof -
  define gm where "gm = setCells (GridModel_new 3 3)
     [(0, 0, Start), (2, 2, Goal), (1, 1, Boost), (1, 0, Rough)]"
  have wf: "wf_grid gm" unfolding gm_def by (rule wf_grid_setCells [OF wf_grid_new])
  have "m_rows gm = 3" unfolding gm_def by code_simp
  then have rows: "unat (m_rows gm) \<le> 101" by simp
  have e: "findPath_fresh list_pq gm =
     Some (Inr \<lparr>path = [(0, 0), (0, 1), (1, 1), (2, 1), (2, 2)], totalCost = Fin (7 / 2)\<rparr>)"
    unfolding gm_def by code_simp
  from path_cost_accounting [OF list_pq_ok wf rows e]
  have "route gm [(0, 0), (0, 1), (1, 1), (2, 1), (2, 2)]" by simp
  then show ?thesis unfolding gm_def [symmetric] using list_pq_ok wf rows e by blast
qed

text \<open>
  On a grid whose tracked start and goal are set and neither in row \<open>101\<close>, the first call
  of \<open>findPath\<close> on a pathfinder just constructed returns the empty path exactly when it
  returns the cost \<open>-1\<close>, and exactly when no walk that enters no wall leads from the start
  to the goal. (The return after the loop is the only one with an empty path: the return
  at the goal holds the goal.)
\<close>

lemma fresh_no_route_sentinel:
  assumes "pq_ok P" and "wf_grid gm"
    and "fst (m_start gm) \<noteq> 101" and "fst (m_goal gm) \<noteq> 101"
  shows "\<exists>r. findPath_fresh P gm = Some (Inr r) \<and>
           (path r = [] \<longleftrightarrow> totalCost r = Fin (- 1)) \<and>
           (path r = [] \<longleftrightarrow> \<not> (\<exists>ps. route gm ps \<and> wall_free gm ps))"
proof -
  from findPath_post [OF assms]
  obtain r where r: "findPath_fresh P gm = Some (Inr r)" "search_post gm r" by blast
  have "totalCost r \<noteq> Fin (- 1) \<and> (\<exists>ps. route gm ps \<and> wall_free gm ps)" if "path r \<noteq> []"
  proof -
    from r(2) that obtain k where k: "totalCost r = Fin k" "reached gm (m_goal gm) k"
      unfolding search_post_def by blast
    have "0 \<le> k" using k(2) by (rule reached_nonneg)
    moreover have "\<exists>ps. route gm ps \<and> wall_free gm ps"
      using k(2) unfolding reached_def route_def by blast
    ultimately show ?thesis using k(1) by simp
  qed
  moreover have "totalCost r = Fin (- 1) \<and> \<not> (\<exists>ps. route gm ps \<and> wall_free gm ps)" if "path r = []"
    using r(2) that unfolding search_post_def by blast
  ultimately show ?thesis using r(1) by blast
qed

lemma fresh_no_route_sentinel_example:
  "pq_ok list_pq \<and>
   wf_grid (setCells (GridModel_new 1 3) [(0, 0, Start), (0, 2, Goal), (0, 1, Wall)]) \<and>
   m_start (setCells (GridModel_new 1 3) [(0, 0, Start), (0, 2, Goal), (0, 1, Wall)]) = (0, 0) \<and>
   m_goal (setCells (GridModel_new 1 3) [(0, 0, Start), (0, 2, Goal), (0, 1, Wall)]) = (0, 2) \<and>
   findPath_fresh list_pq (setCells (GridModel_new 1 3) [(0, 0, Start), (0, 2, Goal), (0, 1, Wall)]) =
     Some (Inr \<lparr>path = [], totalCost = Fin (- 1)\<rparr>) \<and>
   \<not> (\<exists>ps. route (setCells (GridModel_new 1 3) [(0, 0, Start), (0, 2, Goal), (0, 1, Wall)]) ps \<and>
          wall_free (setCells (GridModel_new 1 3) [(0, 0, Start), (0, 2, Goal), (0, 1, Wall)]) ps)"
proof -
  define gm where "gm = setCells (GridModel_new 1 3) [(0, 0, Start), (0, 2, Goal), (0, 1, Wall)]"
  have wf: "wf_grid gm" unfolding gm_def by (rule wf_grid_setCells [OF wf_grid_new])
  have s: "m_start gm = (0, 0)" and g: "m_goal gm = (0, 2)" unfolding gm_def by code_simp+
  have e: "findPath_fresh list_pq gm = Some (Inr \<lparr>path = [], totalCost = Fin (- 1)\<rparr>)"
    unfolding gm_def by code_simp
  have "fst (m_start gm) \<noteq> 101" "fst (m_goal gm) \<noteq> 101" unfolding s g by simp_all
  from fresh_no_route_sentinel [OF list_pq_ok wf this] e
  have "\<not> (\<exists>ps. route gm ps \<and> wall_free gm ps)" by auto
  then show ?thesis unfolding gm_def [symmetric] using list_pq_ok wf s g e by blast
qed

text \<open>A wall-free walk cannot leave a cell all of whose neighbours in the grid are walls.\<close>

lemma walled_in:
  assumes box: "\<And>i. i < 4 \<Longrightarrow> nbr_ok gm s i \<Longrightarrow> cell gm (nbr_pos s i) = Wall"
    and "walk gm ps" and "wall_free gm ps" and "hd ps = s"
  shows "last ps = s"
proof (cases ps)
  case Nil
  then show ?thesis using assms(2) by simp
next
  case (Cons p rest)
  show ?thesis
  proof (cases rest)
    case Nil
    then show ?thesis using Cons assms(4) by simp
  next
    case (Cons q rest')
    have ps: "ps = s # q # rest'" using \<open>ps = p # rest\<close> Cons assms(4) by simp
    have "adjacent s q" using assms(2) by (simp add: ps)
    moreover have "in_bounds gm q" using assms(2) by (rule walk_in_bounds) (simp add: ps)
    ultimately have "in_bounds gm q" "adjacent s q" by simp_all
    from nbr_complete [OF this]
    obtain i where "i < 4" "nbr_ok gm s i" "nbr_pos s i = q" by blast
    then have "cell gm q = Wall" using box by blast
    then show ?thesis using assms(3) by (simp add: ps wall_free_def)
  qed
qed

text \<open>
  C7 at two concrete inputs where walls separate the start from the goal and \<open>findPath\<close>
  does not return the empty path with the cost \<open>-1\<close>. On the \<open>102 x 1\<close> grid with the start
  at \<open>(101, 0)\<close>, the goal at \<open>(99, 0)\<close> and a wall at \<open>(100, 0)\<close> between them, the start is
  taken for unset and the early return gives the cost \<open>0.0\<close>. On the \<open>1 x 5\<close> grid, a first
  call with the start at \<open>(0, 3)\<close> and the goal at \<open>(0, 4)\<close> leaves the node \<open>(0, 2)\<close> with
  \<open>g = 1\<close> in the queue; after the start is moved to \<open>(0, 0)\<close>, a wall set at \<open>(0, 1)\<close> and
  the goal moved to \<open>(0, 3)\<close>, the second call on the same pathfinder pops that node
  behind the wall and returns the path \<open>[(0, 2), (0, 3)]\<close> with the cost \<open>2.0\<close>.
\<close>

theorem walled_off_goal_not_reported:
  "m_start (setCells (GridModel_new 102 1) [(101, 0, Start), (99, 0, Goal), (100, 0, Wall)]) = (101, 0) \<and>
   m_goal (setCells (GridModel_new 102 1) [(101, 0, Start), (99, 0, Goal), (100, 0, Wall)]) = (99, 0) \<and>
   in_bounds (setCells (GridModel_new 102 1) [(101, 0, Start), (99, 0, Goal), (100, 0, Wall)]) (101, 0) \<and>
   \<not> (\<exists>ps. route (setCells (GridModel_new 102 1) [(101, 0, Start), (99, 0, Goal), (100, 0, Wall)]) ps \<and>
          wall_free (setCells (GridModel_new 102 1) [(101, 0, Start), (99, 0, Goal), (100, 0, Wall)]) ps) \<and>
   findPath_fresh list_pq (setCells (GridModel_new 102 1) [(101, 0, Start), (99, 0, Goal), (100, 0, Wall)]) =
     Some (Inr \<lparr>path = [], totalCost = Fin 0\<rparr>) \<and>
   m_start (setCells (setCells (GridModel_new 1 5) [(0, 3, Start), (0, 4, Goal)])
     [(0, 0, Start), (0, 1, Wall), (0, 3, Goal)]) = (0, 0) \<and>
   m_goal (setCells (setCells (GridModel_new 1 5) [(0, 3, Start), (0, 4, Goal)])
     [(0, 0, Start), (0, 1, Wall), (0, 3, Goal)]) = (0, 3) \<and>
   cell (setCells (setCells (GridModel_new 1 5) [(0, 3, Start), (0, 4, Goal)])
     [(0, 0, Start), (0, 1, Wall), (0, 3, Goal)]) (0, 1) = Wall \<and>
   \<not> (\<exists>ps. route (setCells (setCells (GridModel_new 1 5) [(0, 3, Start), (0, 4, Goal)])
          [(0, 0, Start), (0, 1, Wall), (0, 3, Goal)]) ps \<and>
        wall_free (setCells (setCells (GridModel_new 1 5) [(0, 3, Start), (0, 4, Goal)])
          [(0, 0, Start), (0, 1, Wall), (0, 3, Goal)]) ps) \<and>
   findPath_twice list_pq
     (setCells (GridModel_new 1 5) [(0, 3, Start), (0, 4, Goal)])
     (setCells (setCells (GridModel_new 1 5) [(0, 3, Start), (0, 4, Goal)])
        [(0, 0, Start), (0, 1, Wall), (0, 3, Goal)]) =
     Some (Inr \<lparr>path = [(0, 2), (0, 3)], totalCost = Fin 2\<rparr>)"
proof -
  define gm where "gm = setCells (GridModel_new 102 1) [(101, 0, Start), (99, 0, Goal), (100, 0, Wall)]"
  have s: "m_start gm = (101, 0)" and g: "m_goal gm = (99, 0)" and b: "in_bounds gm (101, 0)"
    unfolding gm_def by code_simp+
  have e: "findPath_fresh list_pq gm = Some (Inr \<lparr>path = [], totalCost = Fin 0\<rparr>)"
    unfolding gm_def by code_simp
  have n: "nbr_ok gm (101, 0) 0 \<longrightarrow> cell gm (nbr_pos (101, 0) 0) = Wall"
    "\<not> nbr_ok gm (101, 0) 1" "\<not> nbr_ok gm (101, 0) 2" "\<not> nbr_ok gm (101, 0) 3"
    unfolding gm_def by code_simp+
  have box: "cell gm (nbr_pos (101, 0) i) = Wall" if "i < 4" "nbr_ok gm (101, 0) i" for i
  proof -
    have "i = 0 \<or> i = 1 \<or> i = 2 \<or> i = 3" using that(1) by arith
    then show ?thesis using n that(2) by auto
  qed
  have "\<not> (route gm ps \<and> wall_free gm ps)" for ps
  proof
    assume a: "route gm ps \<and> wall_free gm ps"
    then have "walk gm ps" "hd ps = (101, 0)" "last ps = (99, 0)" by (simp_all add: route_def s g)
    from walled_in [OF box this(1) _ this(2)] a this(3) show False by simp
  qed
  then have nr: "\<not> (\<exists>ps. route gm ps \<and> wall_free gm ps)" by blast
  define gm1 where "gm1 = setCells (GridModel_new 1 5) [(0, 3, Start), (0, 4, Goal)]"
  define gm2 where "gm2 = setCells gm1 [(0, 0, Start), (0, 1, Wall), (0, 3, Goal)]"
  have s2: "m_start gm2 = (0, 0)" and g2: "m_goal gm2 = (0, 3)" and w2: "cell gm2 (0, 1) = Wall"
    unfolding gm2_def gm1_def by code_simp+
  have e2: "findPath_twice list_pq gm1 gm2 =
      Some (Inr \<lparr>path = [(0, 2), (0, 3)], totalCost = Fin 2\<rparr>)"
    unfolding gm2_def gm1_def by code_simp
  have n2: "\<not> nbr_ok gm2 (0, 0) 0" "\<not> nbr_ok gm2 (0, 0) 1" "\<not> nbr_ok gm2 (0, 0) 2"
    "cell gm2 (nbr_pos (0, 0) 3) = Wall"
    unfolding gm2_def gm1_def by code_simp+
  have box2: "cell gm2 (nbr_pos (0, 0) i) = Wall" if "i < 4" "nbr_ok gm2 (0, 0) i" for i
  proof -
    have "i = 0 \<or> i = 1 \<or> i = 2 \<or> i = 3" using that(1) by arith
    then show ?thesis using n2 that(2) by auto
  qed
  have "\<not> (route gm2 ps \<and> wall_free gm2 ps)" for ps
  proof
    assume a: "route gm2 ps \<and> wall_free gm2 ps"
    then have "walk gm2 ps" "hd ps = (0, 0)" "last ps = (0, 3)" by (simp_all add: route_def s2 g2)
    from walled_in [OF box2 this(1) _ this(2)] a this(3) show False by simp
  qed
  then have nr2: "\<not> (\<exists>ps. route gm2 ps \<and> wall_free gm2 ps)" by blast
  show ?thesis
    unfolding gm_def [symmetric] gm1_def [symmetric] gm2_def [symmetric]
    using s g b nr e s2 g2 w2 nr2 e2 by (intro conjI)
qed

theorem walled_off_goal_not_reported_witness:
  "route (setCells (setCells (GridModel_new 1 5) [(0, 3, Start), (0, 4, Goal)])
     [(0, 0, Start), (0, 1, Wall), (0, 3, Goal)]) [(0, 0), (0, 1), (0, 2), (0, 3)] \<and>
   \<not> wall_free (setCells (setCells (GridModel_new 1 5) [(0, 3, Start), (0, 4, Goal)])
     [(0, 0, Start), (0, 1, Wall), (0, 3, Goal)]) [(0, 0), (0, 1), (0, 2), (0, 3)] \<and>
   findPath_twice list_pq
     (setCells (GridModel_new 1 5) [(0, 3, Start), (0, 4, Goal)])
     (setCells (setCells (GridModel_new 1 5) [(0, 3, Start), (0, 4, Goal)])
        [(0, 0, Start), (0, 1, Wall), (0, 3, Goal)]) =
     Some (Inr \<lparr>path = [(0, 2), (0, 3)], totalCost = Fin 2\<rparr>)"
proof -
  define gm2 where "gm2 = setCells (setCells (GridModel_new 1 5) [(0, 3, Start), (0, 4, Goal)])
     [(0, 0, Start), (0, 1, Wall), (0, 3, Goal)]"
  have r: "route gm2 [(0, 0), (0, 1), (0, 2), (0, 3)]" unfolding gm2_def by code_simp
  from walled_off_goal_not_reported
  have n: "\<not> (\<exists>ps. route gm2 ps \<and> wall_free gm2 ps)"
    and e: "findPath_twice list_pq (setCells (GridModel_new 1 5) [(0, 3, Start), (0, 4, Goal)]) gm2 =
      Some (Inr \<lparr>path = [(0, 2), (0, 3)], totalCost = Fin 2\<rparr>)"
    unfolding gm2_def by blast+
  from n r have "\<not> wall_free gm2 [(0, 0), (0, 1), (0, 2), (0, 3)]" by blast
  then show ?thesis unfolding gm2_def [symmetric] using r e by (intro conjI)
qed

end
